theory Spec2Isabelle
  imports Complex_Main "HOL-Library.Word"
begin

unbundle bit_operations_syntax

section \<open>Data model of \<open>CacheSim\<close> (src/cache_sim.cpp)\<close>

text \<open>
  The C++ class keeps its configuration in \<open>unsigned\<close> fields (32-bit words), the
  cache lines in four parallel vectors and the statistics in \<open>std::int64_t\<close>
  counters. The vectors \<open>dirty\<close> and \<open>valid\<close> are \<open>std::vector<char>\<close> that
  only ever receive the values 0 and 1 (a \<open>bool\<close> converted to \<open>char\<close>), so they
  are lists of booleans here. \<open>priority\<close> is a \<open>std::vector<int>\<close>: a list of
  32-bit words, read as signed (\<open>sint\<close>) where the source compares two \<open>int\<close>s and as
  unsigned where the source compares an \<open>int\<close> with an \<open>unsigned\<close>. Arithmetic on
  words wraps around; where C++ leaves signed overflow undefined the model wraps.
  The input stream \<open>infile\<close> is not part of the model: \<open>run\<close> takes the list of
  parsed trace lines. An Isabelle name cannot end in an underscore: the counters
  \<open>writes_\<close>, \<open>mem_accesses_\<close>, \<open>misses_\<close>, \<open>dirty_wb_\<close> and \<open>instructions_\<close>
  carry the prefix \<open>m_\<close> instead.
\<close>

type_synonym u32 = "32 word"
type_synonym u64 = "64 word"
type_synonym i32 = "32 word"
type_synonym i64 = "64 word"

record CacheSim =
  block_size :: u32
  associativity :: u32
  capacity :: u32
  miss_penalty :: u32
  dirty_wb_penalty :: u32
  set_offset :: u32
  tag_offset :: u32
  set_mask :: u32
  tags :: "u64 list"
  dirty :: "bool list"
  valid :: "bool list"
  priority :: "i32 list"
  m_writes :: i64
  m_mem_accesses :: i64
  m_misses :: i64
  m_dirty_wb :: i64
  m_instructions :: i64

text \<open>
  The source has no error handling. The two ways in which it leaves defined
  behaviour are values of the model: an unsigned division by zero in the
  constructor, and an access outside a vector or outside the span of a set in
  \<open>probe\<close>. A cache constructed with a geometry in range (block size times
  associativity does not overflow, the set count is not zero, at most 2^31
  ways) runs every trace without either (lemma \<open>init_run_total\<close>).
\<close>

datatype error = DivisionByZero | OutOfBounds

section \<open>Constructor\<close>

text \<open>\<open>std::__popcount\<close>: the number of one bits.\<close>

fun popcount_nat :: "nat \<Rightarrow> nat" where
  "popcount_nat n = (if n = 0 then 0 else n mod 2 + popcount_nat (n div 2))"

declare popcount_nat.simps [simp del]

definition popcount :: "u32 \<Rightarrow> nat" where
  "popcount w = popcount_nat (unat w)"

text \<open>
  The constructor, lines 17 to 54. \<open>resize\<close> value-initialises the vectors: tags 0,
  flags 0, priorities 0. The counters start at 0 (their member initialisers).
\<close>

definition CacheSim_init :: "u32 \<Rightarrow> u32 \<Rightarrow> u32 \<Rightarrow> u32 \<Rightarrow> u32 \<Rightarrow> error + CacheSim" where
  "CacheSim_init bs a c mp wbp =
     (if bs = 0 then Inl DivisionByZero
      else
        let num_blocks = unat (c div bs);
            block_bits = popcount (bs - 1)
        in if bs * a = 0 then Inl DivisionByZero
           else
             let sets = c div (bs * a);
                 smask = sets - 1;
                 set_bits = popcount smask
             in Inr \<lparr> block_size = bs, associativity = a, capacity = c,
                      miss_penalty = mp, dirty_wb_penalty = wbp,
                      set_offset = of_nat block_bits,
                      tag_offset = of_nat (block_bits + set_bits),
                      set_mask = smask,
                      tags = replicate num_blocks 0,
                      dirty = replicate num_blocks False,
                      valid = replicate num_blocks False,
                      priority = replicate num_blocks 0,
                      m_writes = 0, m_mem_accesses = 0, m_misses = 0,
                      m_dirty_wb = 0, m_instructions = 0 \<rparr>)"

section \<open>Address decoding\<close>

text \<open>
  \<open>get_set\<close> (lines 239 to 242) shifts the 64-bit address, masks it with the
  32-bit \<open>set_mask\<close> (promoted to 64 bits) and returns the result as an \<open>int\<close>: the
  low 32 bits. \<open>get_tag\<close> (line 247) shifts only. A shift by 64 or more is
  undefined in C++ and gives 0 here; the constructor never produces such an
  offset (lemma \<open>init_offsets\<close> below).
\<close>

definition get_set :: "CacheSim \<Rightarrow> u64 \<Rightarrow> i32" where
  "get_set s address =
     (let shifted_address = drop_bit (unat (set_offset s)) address
      in ucast (shifted_address AND ucast (set_mask s)))"

definition get_tag :: "CacheSim \<Rightarrow> u64 \<Rightarrow> u64" where
  "get_tag s address = drop_bit (unat (tag_offset s)) address"

section \<open>Probe\<close>

text \<open>
  The lines of one set, as the four spans \<open>local_tags\<close>, \<open>local_dirty\<close>,
  \<open>local_valid\<close> and \<open>local_priority\<close> of \<open>probe\<close>.
\<close>

record cache_set =
  local_tags :: "u64 list"
  local_dirty :: "bool list"
  local_valid :: "bool list"
  local_priority :: "i32 list"

text \<open>An \<open>unsigned\<close> loop counter or a \<open>std::distance\<close> stored into an \<open>int\<close>.\<close>

definition to_int :: "nat \<Rightarrow> int" where
  "to_int i = sint (word_of_nat i :: 32 word)"

text \<open>
  The lookup loop, lines 173 to 197, from position \<open>i\<close> on: it returns the position
  of the first valid line with the probed tag (if any) and \<open>invalid_index\<close>, the
  last invalid position seen before the loop ended (\<open>-1\<close> initially).
\<close>

function lookup :: "u64 \<Rightarrow> cache_set \<Rightarrow> nat \<Rightarrow> int \<Rightarrow> nat option \<times> int" where
  "lookup tag ls i invalid_index =
     (if i < length (local_valid ls) then
        if \<not> local_valid ls ! i then lookup tag ls (Suc i) (to_int i)
        else if tag \<noteq> local_tags ls ! i then lookup tag ls (Suc i) invalid_index
        else (Some i, invalid_index)
      else (None, invalid_index))"
  by pat_completeness auto
termination
  by (relation "measure (\<lambda>(tag, ls, i, inv). length (local_valid ls) - i)") auto

declare lookup.simps [simp del]

text \<open>
  \<open>std::ranges::max_element\<close> on the priorities (an \<open>int\<close> range, compared signed):
  the position of the first greatest element, and the end position 0 of an empty
  range. \<open>max_from ps i best\<close> continues from position \<open>i\<close> with the best position so
  far. (Line 209 of the source reads \<open>std::ranges : max_element\<close>, with a single
  colon; the call meant is \<open>std::ranges::max_element\<close>.)
\<close>

fun max_from :: "i32 list \<Rightarrow> nat \<Rightarrow> nat \<Rightarrow> i32 list \<Rightarrow> nat" where
  "max_from ps i best [] = best"
| "max_from ps i best (p # rest) =
     max_from ps (Suc i) (if sint (ps ! best) < sint p then i else best) rest"

definition max_element :: "i32 list \<Rightarrow> nat" where
  "max_element ps = (case ps of [] \<Rightarrow> 0 | p # rest \<Rightarrow> max_from ps 1 0 rest)"

text \<open>
  The priority update, lines 223 to 232. \<open>std::transform\<close> writes each result back
  into the range it reads, from the first element to the last (as the library
  implementations of the sequential algorithm do), and the lambda reads
  \<open>local_priority[index]\<close> from that same range at every step: the model folds
  over the positions and reads the current list.
\<close>

definition age :: "u32 \<Rightarrow> i32 \<Rightarrow> i32 \<Rightarrow> i32" where
  "age a touched p = (if sint p \<le> sint touched \<and> p < a then p + 1 else p)"

definition transform_priority :: "u32 \<Rightarrow> nat \<Rightarrow> i32 list \<Rightarrow> i32 list" where
  "transform_priority a index ps =
     fold (\<lambda>i qs. qs[i := age a (qs ! index) (qs ! i)]) [0..<length ps] ps"

definition update_priority :: "u32 \<Rightarrow> nat \<Rightarrow> cache_set \<Rightarrow> cache_set" where
  "update_priority a index ls =
     ls\<lparr>local_priority := (transform_priority a index (local_priority ls))[index := 0]\<rparr>"

text \<open>
  The body of \<open>probe\<close> on the spans of the set, lines 173 to 234. The \<open>int\<close>
  variable \<open>index\<close> subscripts the spans: a negative value (an \<open>unsigned\<close> position
  of 2^31 or more stored into the \<open>int\<close>) or the position 0 of an empty set is
  outside the span.
\<close>

definition probe_set :: "u32 \<Rightarrow> bool \<Rightarrow> u64 \<Rightarrow> cache_set \<Rightarrow> error + cache_set \<times> bool \<times> bool" where
  "probe_set a type tag ls =
     (case lookup tag ls 0 (- 1) of
        (Some i, invalid_index) \<Rightarrow>
          let index = to_int i
          in if index < 0 then Inl OutOfBounds
             else
               let k = nat index;
                   ls1 = ls\<lparr>local_dirty := (local_dirty ls)[k := (local_dirty ls ! k \<or> type)]\<rparr>
               in Inr (update_priority a k ls1, True, False)
      | (None, invalid_index) \<Rightarrow>
          if 0 \<le> invalid_index then
            let k = nat invalid_index;
                ls1 = ls\<lparr>local_valid := (local_valid ls)[k := True]\<rparr>;
                ls2 = ls1\<lparr>local_tags := (local_tags ls1)[k := tag],
                          local_dirty := (local_dirty ls1)[k := type]\<rparr>
            in Inr (update_priority a k ls2, False, False)
          else
            let index = to_int (max_element (local_priority ls))
            in if index < 0 \<or> length (local_priority ls) \<le> nat index then Inl OutOfBounds
               else
                 let k = nat index;
                     dirty_wb = local_dirty ls ! k;
                     ls2 = ls\<lparr>local_tags := (local_tags ls)[k := tag],
                              local_dirty := (local_dirty ls)[k := type]\<rparr>
                 in Inr (update_priority a k ls2, False, dirty_wb))"

text \<open>
  The spans: \<open>associativity\<close> elements of each vector from \<open>base\<close> on, and the
  vectors with the spans written back.
\<close>

definition span :: "nat \<Rightarrow> nat \<Rightarrow> 'a list \<Rightarrow> 'a list" where
  "span base n xs = take n (drop base xs)"

definition write_span :: "nat \<Rightarrow> 'a list \<Rightarrow> 'a list \<Rightarrow> 'a list" where
  "write_span base ys xs = take base xs @ ys @ drop (base + length ys) xs"

definition get_cache_set :: "CacheSim \<Rightarrow> nat \<Rightarrow> cache_set" where
  "get_cache_set s base =
     (let n = unat (associativity s)
      in \<lparr> local_tags = span base n (tags s), local_dirty = span base n (dirty s),
           local_valid = span base n (valid s), local_priority = span base n (priority s) \<rparr>)"

definition put_cache_set :: "CacheSim \<Rightarrow> nat \<Rightarrow> cache_set \<Rightarrow> CacheSim" where
  "put_cache_set s base ls =
     s\<lparr> tags := write_span base (local_tags ls) (tags s),
        dirty := write_span base (local_dirty ls) (dirty s),
        valid := write_span base (local_valid ls) (valid s),
        priority := write_span base (local_priority ls) (priority s) \<rparr>"

text \<open>
  \<open>probe\<close>, lines 160 to 235. \<open>base = set * associativity\<close> is an \<open>int\<close> times an
  \<open>unsigned\<close>: a 32-bit unsigned product. A span that does not lie inside its
  vector is out of bounds.
\<close>

definition set_base :: "CacheSim \<Rightarrow> u64 \<Rightarrow> nat" where
  "set_base s address = unat (get_set s address * associativity s)"

definition in_bounds :: "CacheSim \<Rightarrow> nat \<Rightarrow> bool" where
  "in_bounds s base =
     (let e = base + unat (associativity s)
      in e \<le> length (tags s) \<and> e \<le> length (dirty s) \<and>
         e \<le> length (valid s) \<and> e \<le> length (priority s))"

definition probe :: "CacheSim \<Rightarrow> bool \<Rightarrow> u64 \<Rightarrow> error + CacheSim \<times> bool \<times> bool" where
  "probe s type address =
     (let tag = get_tag s address;
          base = set_base s address
      in if \<not> in_bounds s base then Inl OutOfBounds
         else
           case probe_set (associativity s) type tag (get_cache_set s base) of
             Inl e \<Rightarrow> Inl e
           | Inr (ls, hit, dirty_wb) \<Rightarrow> Inr (put_cache_set s base ls, hit, dirty_wb))"

section \<open>Statistics and the run loop\<close>

text \<open>\<open>update_stats\<close>, lines 250 to 256; \<open>instructions\<close> is an \<open>int\<close>, sign-extended.\<close>

definition bool_to_i64 :: "bool \<Rightarrow> i64" where
  "bool_to_i64 b = (if b then 1 else 0)"

definition update_stats :: "CacheSim \<Rightarrow> i32 \<Rightarrow> bool \<Rightarrow> bool \<Rightarrow> bool \<Rightarrow> CacheSim" where
  "update_stats s instructions type hit dirty_wb =
     s\<lparr> m_mem_accesses := m_mem_accesses s + 1,
        m_writes := m_writes s + bool_to_i64 type,
        m_misses := m_misses s + bool_to_i64 (\<not> hit),
        m_instructions := m_instructions s + scast instructions,
        m_dirty_wb := bool_to_i64 dirty_wb \<rparr>"

text \<open>
  \<open>run\<close>, lines 57 to 70, over the parsed trace lines \<open>(type, address, instructions)\<close>.
\<close>

type_synonym access = "bool \<times> u64 \<times> i32"

fun run :: "CacheSim \<Rightarrow> access list \<Rightarrow> error + CacheSim" where
  "run s [] = Inr s"
| "run s ((type, address, instructions) # rest) =
     (case probe s type address of
        Inl e \<Rightarrow> Inl e
      | Inr (s', hit, dirty_wb) \<Rightarrow> run (update_stats s' instructions type hit dirty_wb) rest)"

section \<open>Report\<close>

text \<open>
  \<open>dump_stats\<close>, lines 108 to 144, prints the configuration, the counters and four
  derived values. The model returns the derived values. \<open>hits\<close> and \<open>cycles\<close> are
  \<open>std::int64_t\<close> (the \<open>unsigned\<close> penalties are converted to 64 bits before the
  multiplication). \<open>miss_rate\<close> and \<open>ipc\<close> are quotients of \<open>double\<close>s: a \<open>double\<close>
  is modelled as not-a-number, an infinity, or the real number it stands for; the
  rounding of a finite result to the nearest \<open>double\<close> is not modelled. A division
  of \<open>double\<close>s never traps: zero by zero is not-a-number, and a non-zero value by
  zero is an infinity.
\<close>

datatype double = NaN | PosInf | NegInf | Finite real

definition double_div :: "int \<Rightarrow> int \<Rightarrow> double" where
  "double_div x y =
     (if y = 0 then (if x = 0 then NaN else if 0 < x then PosInf else NegInf)
      else Finite (real_of_int x / real_of_int y))"

definition double_times :: "double \<Rightarrow> real \<Rightarrow> double" where
  "double_times d c = (case d of Finite x \<Rightarrow> Finite (x * c) | other \<Rightarrow> other)"

record report =
  miss_rate :: double
  hits :: i64
  cycles :: i64
  ipc :: double

definition dump_stats :: "CacheSim \<Rightarrow> report" where
  "dump_stats s =
     (let mr = double_times (double_div (sint (m_misses s)) (sint (m_mem_accesses s))) 100;
          h = m_mem_accesses s - m_misses s;
          cycles0 = ucast (miss_penalty s) * m_misses s;
          cycles1 = cycles0 + ucast (dirty_wb_penalty s) * m_dirty_wb s;
          cycles2 = cycles1 + m_instructions s
      in \<lparr> miss_rate = mr, hits = h, cycles = cycles2,
           ipc = double_div (sint (m_instructions s)) (sint cycles2) \<rparr>)"

section \<open>Auxiliary notions for the proofs\<close>

text \<open>
  The value that the priority update leaves at position \<open>j\<close> before the touched
  position is reset: positions before \<open>index\<close> are compared with the touched
  line's old priority, the touched position with itself, and positions after it
  with the value just written at \<open>index\<close> (lemma \<open>nth_transform_priority\<close>).
\<close>

definition aged :: "u32 \<Rightarrow> nat \<Rightarrow> i32 list \<Rightarrow> nat \<Rightarrow> i32" where
  "aged a index ps j =
     (if j < index then age a (ps ! index) (ps ! j)
      else if j = index then age a (ps ! index) (ps ! index)
      else age a (age a (ps ! index) (ps ! index)) (ps ! j))"

text \<open>The four spans of a set have \<open>n\<close> elements each.\<close>

definition set_lengths :: "nat \<Rightarrow> cache_set \<Rightarrow> bool" where
  "set_lengths n ls =
     (length (local_tags ls) = n \<and> length (local_dirty ls) = n \<and>
      length (local_valid ls) = n \<and> length (local_priority ls) = n)"

text \<open>
  Two states have the same geometry when the fields that \<open>get_set\<close>, \<open>get_tag\<close>
  and \<open>probe\<close> decode an address with agree.
\<close>

definition same_geometry :: "CacheSim \<Rightarrow> CacheSim \<Rightarrow> bool" where
  "same_geometry s s' =
     (associativity s' = associativity s \<and> set_offset s' = set_offset s \<and>
      tag_offset s' = tag_offset s \<and> set_mask s' = set_mask s)"

text \<open>
  An address is resident when a valid line of its set holds its tag: the
  condition under which the lookup loop of \<open>probe\<close> reports a hit.
\<close>

definition resident :: "CacheSim \<Rightarrow> u64 \<Rightarrow> bool" where
  "resident s address =
     (let ls = get_cache_set s (set_base s address)
      in (True, get_tag s address) \<in> set (zip (local_valid ls) (local_tags ls)))"

text \<open>
  The shape of a set of \<open>n\<close> lines after the pairwise distinct tags \<open>ts\<close> (at most
  \<open>n\<close> of them) missed one after the other in a fresh set: the lines are filled
  from the last position downwards, the filled lines carry their recency rank,
  and the lines still invalid carry the number of fills.
\<close>

definition filled :: "nat \<Rightarrow> u64 list \<Rightarrow> cache_set \<Rightarrow> bool" where
  "filled n ts ls =
     (set_lengths n ls \<and> length ts \<le> n \<and>
      (\<forall>i<n. local_valid ls ! i = (n - length ts \<le> i)) \<and>
      (\<forall>i<n. n - length ts \<le> i \<longrightarrow> local_tags ls ! i = ts ! (n - 1 - i)) \<and>
      (\<forall>i<n. local_priority ls ! i =
          word_of_nat (if i < n - length ts then length ts else i - (n - length ts))))"

text \<open>
  Small caches for concrete runs. Block size 16, two ways, capacity 64: two sets
  of two lines (lemma \<open>init_two_way\<close>). Block size 16, four ways, capacity 64:
  one set of four lines (lemma \<open>init_four_way\<close>).
\<close>

definition two_way_fresh :: CacheSim where
  "two_way_fresh =
     \<lparr> block_size = 16, associativity = 2, capacity = 64, miss_penalty = 30,
       dirty_wb_penalty = 2, set_offset = 4, tag_offset = 5, set_mask = 1,
       tags = [0, 0, 0, 0], dirty = [False, False, False, False],
       valid = [False, False, False, False], priority = [0, 0, 0, 0],
       m_writes = 0, m_mem_accesses = 0, m_misses = 0, m_dirty_wb = 0,
       m_instructions = 0 \<rparr>"

definition four_way_fresh :: CacheSim where
  "four_way_fresh =
     \<lparr> block_size = 16, associativity = 4, capacity = 64, miss_penalty = 30,
       dirty_wb_penalty = 2, set_offset = 4, tag_offset = 4, set_mask = 0,
       tags = [0, 0, 0, 0], dirty = [False, False, False, False],
       valid = [False, False, False, False], priority = [0, 0, 0, 0],
       m_writes = 0, m_mem_accesses = 0, m_misses = 0, m_dirty_wb = 0,
       m_instructions = 0 \<rparr>"

text \<open>
  The cache that \<open>main\<close> constructs (lines 266 to 274): block size 16, one way,
  capacity 16384, hence 1024 sets of one line (lemma \<open>init_main\<close>).
\<close>

definition main_fresh :: CacheSim where
  "main_fresh =
     \<lparr> block_size = 16, associativity = 1, capacity = 16384, miss_penalty = 30,
       dirty_wb_penalty = 2, set_offset = 4, tag_offset = 14, set_mask = 1023,
       tags = replicate 1024 0, dirty = replicate 1024 False,
       valid = replicate 1024 False, priority = replicate 1024 0,
       m_writes = 0, m_mem_accesses = 0, m_misses = 0, m_dirty_wb = 0,
       m_instructions = 0 \<rparr>"

section \<open>Facts about the model\<close>

subsection \<open>Integers and population count\<close>

lemma to_int_id: "i < 2 ^ 31 \<Longrightarrow> to_int i = int i"
  unfolding to_int_def
  by (simp add: signed_of_nat signed_take_bit_int_eq_self)

lemma sint_of_nat_u32: "x < 2 ^ 31 \<Longrightarrow> sint (word_of_nat x :: i32) = int x"
  using to_int_id [of x] by (simp add: to_int_def)

lemma of_nat_less_u32: "x < unat (a :: u32) \<Longrightarrow> (word_of_nat x :: u32) < a"
proof -
  assume x: "x < unat a"
  have "unat a < 2 ^ LENGTH(32)" by (rule unsigned_less)
  with x have "x < 2 ^ LENGTH(32)" by simp
  then have "unat (word_of_nat x :: u32) = x" unfolding unat_of_nat by (rule mod_less)
  with x show ?thesis by (simp add: word_less_nat_alt)
qed

lemma unat_ucast_32_64: "unat (ucast (w :: u32) :: u64) = unat w"
proof -
  have "unat w < 2 ^ 32" using unsigned_less [of w] by simp
  then have "unat w < 2 ^ 64" by simp
  then show ?thesis by (simp add: unsigned_ucast_eq take_bit_nat_eq_self)
qed

lemma unat_ucast_64_32_le: "unat (ucast (w :: u64) :: u32) \<le> unat w"
  by (simp add: unsigned_ucast_eq take_bit_nat_less_eq_self)

lemma unat_mult_le: "unat (x * y :: u32) \<le> unat x * unat y"
  by (simp add: unat_word_ariths)

lemma unat_pow2_u32: "k < 32 \<Longrightarrow> unat ((2 :: u32) ^ k) = 2 ^ k"
proof -
  assume "k < 32"
  then have "(2 :: nat) ^ k < 2 ^ LENGTH(32)" by (intro power_strict_increasing) simp_all
  then have "unat (word_of_nat (2 ^ k) :: u32) = 2 ^ k"
    unfolding unat_of_nat by (rule mod_less)
  moreover have "(word_of_nat (2 ^ k) :: u32) = 2 ^ k" by simp
  ultimately show ?thesis by (simp only:)
qed

lemma popcount_nat_mask: "popcount_nat (2 ^ k - 1) = k"
proof (induction k)
  case 0
  then show ?case by (simp add: popcount_nat.simps)
next
  case (Suc k)
  have "1 \<le> (2::nat) ^ k" by simp
  then have e: "(2::nat) ^ Suc k - 1 = 2 * (2 ^ k - 1) + 1"
    by (simp only: power_Suc)
  have "popcount_nat (2 * (2 ^ k - 1) + 1) = 1 + popcount_nat (2 ^ k - 1)"
    by (subst popcount_nat.simps) simp
  with Suc e show ?case by simp
qed

lemma popcount_nat_le: "n < 2 ^ k \<Longrightarrow> popcount_nat n \<le> k"
proof (induction k arbitrary: n)
  case 0
  then show ?case by (simp add: popcount_nat.simps)
next
  case (Suc k)
  show ?case
  proof (cases "n = 0")
    case True
    then show ?thesis by (simp add: popcount_nat.simps)
  next
    case False
    from Suc.prems have "n div 2 < 2 ^ k" by simp
    then have "popcount_nat (n div 2) \<le> k" by (rule Suc.IH)
    moreover have "n mod 2 \<le> 1" by simp
    ultimately show ?thesis using False
      by (subst popcount_nat.simps) simp
  qed
qed

lemma popcount_nat_less: "n < 2 ^ k - 1 \<Longrightarrow> popcount_nat n < k"
proof (induction k arbitrary: n)
  case 0
  then show ?case by simp
next
  case (Suc k)
  show ?case
  proof (cases "n = 0")
    case True
    then show ?thesis by (simp add: popcount_nat.simps)
  next
    case False
    then have pc: "popcount_nat n = n mod 2 + popcount_nat (n div 2)"
      by (subst popcount_nat.simps) simp
    show ?thesis
    proof (cases "n div 2 < 2 ^ k - 1")
      case True
      then have "popcount_nat (n div 2) < k" by (rule Suc.IH)
      moreover have "n mod 2 \<le> 1" by simp
      ultimately show ?thesis using pc by linarith
    next
      case False
      have "n < 2 * 2 ^ k - 1" using Suc.prems by simp
      then have "n div 2 \<le> 2 ^ k - 1" by linarith
      with False have d: "n div 2 = 2 ^ k - 1" by simp
      have "n mod 2 = 0"
      proof (rule ccontr)
        assume "n mod 2 \<noteq> 0"
        then have "n mod 2 = 1" by simp
        then have "n = 2 * (n div 2) + 1" by (metis mult_div_mod_eq)
        with d have "n = 2 * (2 ^ k - 1) + 1" by simp
        moreover have "1 \<le> (2::nat) ^ k" by simp
        ultimately have "n = 2 * 2 ^ k - 1" by linarith
        with \<open>n < 2 * 2 ^ k - 1\<close> show False by simp
      qed
      with pc d popcount_nat_mask [of k] show ?thesis by simp
    qed
  qed
qed

lemma popcount_le_32: "popcount w \<le> 32"
proof -
  have "unat w < 2 ^ 32" using unsigned_less [of w] by simp
  then show ?thesis unfolding popcount_def by (rule popcount_nat_le)
qed

lemma popcount_pred_less_32: "bs \<noteq> 0 \<Longrightarrow> popcount (bs - 1) < 32"
proof -
  assume bs: "bs \<noteq> 0"
  then have "unat (bs - 1) = unat bs - 1" by (rule unat_minus_one)
  moreover have "unat bs < 2 ^ 32" using unsigned_less [of bs] by simp
  moreover have "0 < unat bs" using bs by (simp add: unat_gt_0)
  ultimately have "unat (bs - 1) < 2 ^ 32 - 1" by linarith
  then show ?thesis unfolding popcount_def by (rule popcount_nat_less)
qed

lemma popcount_pow2_minus_1: "k < 32 \<Longrightarrow> popcount ((2 :: u32) ^ k - 1) = k"
proof -
  assume k: "k < 32"
  then have "(2 :: u32) ^ k \<noteq> 0" by simp
  then have "unat ((2 :: u32) ^ k - 1) = unat ((2 :: u32) ^ k) - 1" by (rule unat_minus_one)
  with k popcount_nat_mask [of k] show ?thesis by (simp add: popcount_def unat_pow2_u32)
qed

subsection \<open>The constructor\<close>

lemma init_fields:
  assumes "CacheSim_init bs a c mp wbp = Inr s"
  shows "bs \<noteq> 0" and "bs * a \<noteq> 0" and "block_size s = bs" and "associativity s = a"
    and "set_mask s = c div (bs * a) - 1"
    and "tags s = replicate (unat (c div bs)) 0"
    and "dirty s = replicate (unat (c div bs)) False"
    and "valid s = replicate (unat (c div bs)) False"
    and "priority s = replicate (unat (c div bs)) 0"
  using assms by (auto simp: CacheSim_init_def Let_def split: if_splits)

lemma init_offsets:
  assumes "CacheSim_init bs a c mp wbp = Inr s"
  shows "unat (set_offset s) < 32" and "unat (tag_offset s) < 64"
proof -
  from assms have bs: "bs \<noteq> 0" and so: "set_offset s = word_of_nat (popcount (bs - 1))"
    and to: "tag_offset s = word_of_nat (popcount (bs - 1) + popcount (c div (bs * a) - 1))"
    by (auto simp: CacheSim_init_def Let_def split: if_splits)
  note p = popcount_pred_less_32 [OF bs]
  note q = popcount_le_32 [of "c div (bs * a) - 1"]
  have "unat (set_offset s) \<le> popcount (bs - 1)"
    unfolding so unat_of_nat by (rule mod_less_eq_dividend)
  with p show "unat (set_offset s) < 32" by simp
  have "unat (tag_offset s) \<le> popcount (bs - 1) + popcount (c div (bs * a) - 1)"
    unfolding to unat_of_nat by (rule mod_less_eq_dividend)
  with p q show "unat (tag_offset s) < 64" by simp
qed

lemma init_pow2_fields:
  assumes "CacheSim_init bs a c mp wbp = Inr s"
    and "bs = 2 ^ k" and "k < 32" and "c div (bs * a) = 2 ^ m" and "m < 32"
  shows "block_size s = 2 ^ k" and "unat (set_offset s) = k" and "unat (tag_offset s) = k + m"
    and "set_mask s = mask m"
proof -
  from assms(1) have s: "block_size s = bs" "set_offset s = of_nat (popcount (bs - 1))"
    "tag_offset s = of_nat (popcount (bs - 1) + popcount (c div (bs * a) - 1))"
    "set_mask s = c div (bs * a) - 1"
    by (auto simp: CacheSim_init_def Let_def split: if_splits)
  have pk: "popcount (bs - 1) = k" using assms(2,3) by (simp add: popcount_pow2_minus_1)
  have pm: "popcount (c div (bs * a) - 1) = m" using assms(4,5) by (simp add: popcount_pow2_minus_1)
  show "block_size s = 2 ^ k" using s(1) assms(2) by simp
  show "unat (set_offset s) = k" using assms(3) by (simp add: s(2) pk unat_of_nat)
  have "k + m < 2 ^ LENGTH(32)" using assms(3,5) by simp
  then have "unat (word_of_nat (k + m) :: u32) = k + m"
    unfolding unat_of_nat by (rule mod_less)
  then show "unat (tag_offset s) = k + m" by (simp only: s(3) pk pm)
  show "set_mask s = mask m" by (simp add: s(4) assms(4) mask_eq_decr_exp)
qed

subsection \<open>The lookup loop\<close>

lemma lookup_hit:
  "lookup tag ls i iv = (Some k, r) \<Longrightarrow>
   i \<le> k \<and> k < length (local_valid ls) \<and> local_valid ls ! k \<and> local_tags ls ! k = tag \<and>
   (\<forall>j. i \<le> j \<and> j < k \<longrightarrow> \<not> (local_valid ls ! j \<and> local_tags ls ! j = tag))"
proof (induction tag ls i iv rule: lookup.induct)
  case (1 tag ls i iv)
  show ?case
  proof (cases "i < length (local_valid ls)")
    case False
    with "1.prems" show ?thesis by (simp add: lookup.simps)
  next
    case True
    show ?thesis
    proof (cases "local_valid ls ! i \<and> local_tags ls ! i = tag")
      case True
      with \<open>i < length (local_valid ls)\<close> "1.prems" show ?thesis
        by (auto simp: lookup.simps [of tag ls i])
    next
      case False
      then consider (a) "\<not> local_valid ls ! i" | (b) "local_valid ls ! i" "tag \<noteq> local_tags ls ! i"
        by auto
      then have "\<exists>iv'. lookup tag ls (Suc i) iv' = (Some k, r) \<and>
          (Suc i \<le> k \<and> k < length (local_valid ls) \<and> local_valid ls ! k \<and> local_tags ls ! k = tag \<and>
          (\<forall>j. Suc i \<le> j \<and> j < k \<longrightarrow> \<not> (local_valid ls ! j \<and> local_tags ls ! j = tag)))"
      proof cases
        case a
        with True "1.prems" have "lookup tag ls (Suc i) (to_int i) = (Some k, r)"
          by (simp add: lookup.simps [of tag ls i])
        with "1.IH"(1) [OF True a] show ?thesis by blast
      next
        case b
        with True "1.prems" have "lookup tag ls (Suc i) iv = (Some k, r)"
          by (simp add: lookup.simps [of tag ls i])
        with "1.IH"(2) [OF True] b show ?thesis by blast
      qed
      then have *: "Suc i \<le> k" "k < length (local_valid ls)" "local_valid ls ! k" "local_tags ls ! k = tag"
          "\<forall>j. Suc i \<le> j \<and> j < k \<longrightarrow> \<not> (local_valid ls ! j \<and> local_tags ls ! j = tag)"
        by blast+
      have "\<not> (local_valid ls ! j \<and> local_tags ls ! j = tag)" if "i \<le> j" "j < k" for j
      proof (cases "j = i")
        case True
        with False show ?thesis by simp
      next
        case False
        with that * show ?thesis by (simp add: Suc_le_eq)
      qed
      with * show ?thesis by auto
    qed
  qed
qed

lemma lookup_miss:
  "lookup tag ls i iv = (None, r) \<Longrightarrow>
   (\<forall>j. i \<le> j \<and> j < length (local_valid ls) \<longrightarrow> \<not> (local_valid ls ! j \<and> local_tags ls ! j = tag)) \<and>
   ((r = iv \<and> (\<forall>j. i \<le> j \<and> j < length (local_valid ls) \<longrightarrow> local_valid ls ! j)) \<or>
    (\<exists>k. i \<le> k \<and> k < length (local_valid ls) \<and> \<not> local_valid ls ! k \<and> r = to_int k \<and>
         (\<forall>j. k < j \<and> j < length (local_valid ls) \<longrightarrow> local_valid ls ! j)))"
proof (induction tag ls i iv rule: lookup.induct)
  case (1 tag ls i iv)
  let ?n = "length (local_valid ls)"
  show ?case
  proof (cases "i < ?n")
    case False
    with "1.prems" show ?thesis by (auto simp: lookup.simps [of tag ls i])
  next
    case True
    have nohit: "\<not> (local_valid ls ! i \<and> local_tags ls ! i = tag)"
      using True "1.prems" by (auto simp: lookup.simps [of tag ls i])
    show ?thesis
    proof (cases "local_valid ls ! i")
      case False
      with True "1.prems" have eq: "lookup tag ls (Suc i) (to_int i) = (None, r)"
        by (simp add: lookup.simps [of tag ls i])
      note ih = "1.IH"(1) [OF True False eq]
      from ih have m: "\<forall>j. Suc i \<le> j \<and> j < ?n \<longrightarrow> \<not> (local_valid ls ! j \<and> local_tags ls ! j = tag)"
        by blast
      have m': "\<forall>j. i \<le> j \<and> j < ?n \<longrightarrow> \<not> (local_valid ls ! j \<and> local_tags ls ! j = tag)"
      proof (intro allI impI)
        fix j assume "i \<le> j \<and> j < ?n"
        then show "\<not> (local_valid ls ! j \<and> local_tags ls ! j = tag)"
          using m nohit by (cases "j = i") (auto simp: Suc_le_eq)
      qed
      from ih consider (x) "r = to_int i" "\<forall>j. Suc i \<le> j \<and> j < ?n \<longrightarrow> local_valid ls ! j"
        | (y) k where "Suc i \<le> k" "k < ?n" "\<not> local_valid ls ! k" "r = to_int k"
            "\<forall>j. k < j \<and> j < ?n \<longrightarrow> local_valid ls ! j"
        by blast
      then have "\<exists>k. i \<le> k \<and> k < ?n \<and> \<not> local_valid ls ! k \<and> r = to_int k \<and>
         (\<forall>j. k < j \<and> j < ?n \<longrightarrow> local_valid ls ! j)"
      proof cases
        case x
        with True False show ?thesis
          by (intro exI [of _ i]) (auto simp: Suc_le_eq)
      next
        case y
        then show ?thesis by (intro exI [of _ k]) auto
      qed
      with m' show ?thesis by blast
    next
      case v: True
      with nohit have ne: "tag \<noteq> local_tags ls ! i" by auto
      with True v "1.prems" have eq: "lookup tag ls (Suc i) iv = (None, r)"
        by (simp add: lookup.simps [of tag ls i])
      have nn: "\<not> \<not> local_valid ls ! i" using v by simp
      note ih = "1.IH"(2) [OF True nn ne eq]
      from ih have m: "\<forall>j. Suc i \<le> j \<and> j < ?n \<longrightarrow> \<not> (local_valid ls ! j \<and> local_tags ls ! j = tag)"
        by blast
      have m': "\<forall>j. i \<le> j \<and> j < ?n \<longrightarrow> \<not> (local_valid ls ! j \<and> local_tags ls ! j = tag)"
      proof (intro allI impI)
        fix j assume "i \<le> j \<and> j < ?n"
        then show "\<not> (local_valid ls ! j \<and> local_tags ls ! j = tag)"
          using m nohit by (cases "j = i") (auto simp: Suc_le_eq)
      qed
      from ih consider (x) "r = iv" "\<forall>j. Suc i \<le> j \<and> j < ?n \<longrightarrow> local_valid ls ! j"
        | (y) k where "Suc i \<le> k" "k < ?n" "\<not> local_valid ls ! k" "r = to_int k"
            "\<forall>j. k < j \<and> j < ?n \<longrightarrow> local_valid ls ! j"
        by blast
      then have "(r = iv \<and> (\<forall>j. i \<le> j \<and> j < ?n \<longrightarrow> local_valid ls ! j)) \<or>
        (\<exists>k. i \<le> k \<and> k < ?n \<and> \<not> local_valid ls ! k \<and> r = to_int k \<and>
         (\<forall>j. k < j \<and> j < ?n \<longrightarrow> local_valid ls ! j))"
      proof cases
        case x
        have "\<forall>j. i \<le> j \<and> j < ?n \<longrightarrow> local_valid ls ! j"
        proof (intro allI impI)
          fix j assume "i \<le> j \<and> j < ?n"
          then show "local_valid ls ! j" using x(2) v by (cases "j = i") (auto simp: Suc_le_eq)
        qed
        with x(1) show ?thesis by blast
      next
        case y
        then have "i \<le> k \<and> k < ?n \<and> \<not> local_valid ls ! k \<and> r = to_int k \<and>
         (\<forall>j. k < j \<and> j < ?n \<longrightarrow> local_valid ls ! j)" by auto
        then show ?thesis by blast
      qed
      with m' show ?thesis by blast
    qed
  qed
qed

lemma lookup_empty: "local_valid ls = [] \<Longrightarrow> lookup tag ls 0 iv = (None, iv)"
  by (simp add: lookup.simps)

subsection \<open>The greatest priority\<close>

lemma max_from_spec:
  "ps = pre @ rest \<Longrightarrow> length pre = i \<Longrightarrow> best < i \<Longrightarrow>
   (\<forall>j<i. sint (ps ! j) \<le> sint (ps ! best)) \<Longrightarrow>
   (\<forall>j<best. sint (ps ! j) < sint (ps ! best)) \<Longrightarrow>
   max_from ps i best rest < length ps \<and>
   (\<forall>j<length ps. sint (ps ! j) \<le> sint (ps ! max_from ps i best rest)) \<and>
   (\<forall>j<max_from ps i best rest. sint (ps ! j) < sint (ps ! max_from ps i best rest))"
proof (induction rest arbitrary: pre i best)
  case Nil
  then show ?case by simp
next
  case (Cons p rest)
  let ?b = "if sint (ps ! best) < sint p then i else best"
  have p: "ps ! i = p" using Cons.prems(1,2) by (simp add: nth_append)
  have 1: "ps = (pre @ [p]) @ rest" using Cons.prems(1) by simp
  have 2: "length (pre @ [p]) = Suc i" using Cons.prems(2) by simp
  have 3: "?b < Suc i" using Cons.prems(3) by simp
  have 4: "\<forall>j<Suc i. sint (ps ! j) \<le> sint (ps ! ?b)"
  proof (intro allI impI)
    fix j assume "j < Suc i"
    then consider "j < i" | "j = i" by (auto simp: less_Suc_eq)
    then show "sint (ps ! j) \<le> sint (ps ! ?b)"
    proof cases
      case 1
      with Cons.prems(4) have "sint (ps ! j) \<le> sint (ps ! best)" by simp
      then show ?thesis using p by auto
    next
      case 2
      then show ?thesis using p by auto
    qed
  qed
  have 5: "\<forall>j<?b. sint (ps ! j) < sint (ps ! ?b)"
  proof (intro allI impI)
    fix j assume j: "j < ?b"
    show "sint (ps ! j) < sint (ps ! ?b)"
    proof (cases "sint (ps ! best) < sint p")
      case True
      with j have "j < i" by simp
      with Cons.prems(4) have "sint (ps ! j) \<le> sint (ps ! best)" by simp
      with True p show ?thesis by simp
    next
      case False
      with j Cons.prems(5) show ?thesis by simp
    qed
  qed
  from Cons.IH [OF 1 2 3 4 5] show ?case by simp
qed

lemma max_element_spec:
  assumes "ps \<noteq> []"
  shows "max_element ps < length ps"
    and "\<forall>j<length ps. sint (ps ! j) \<le> sint (ps ! max_element ps)"
    and "\<forall>j<max_element ps. sint (ps ! j) < sint (ps ! max_element ps)"
proof -
  from assms obtain p rest where ps: "ps = p # rest" by (cases ps) auto
  have m: "max_element ps = max_from ps 1 0 rest" by (simp add: max_element_def ps)
  have "max_from ps 1 0 rest < length ps \<and>
   (\<forall>j<length ps. sint (ps ! j) \<le> sint (ps ! max_from ps 1 0 rest)) \<and>
   (\<forall>j<max_from ps 1 0 rest. sint (ps ! j) < sint (ps ! max_from ps 1 0 rest))"
    by (rule max_from_spec [where pre = "[p]"]) (simp_all add: ps)
  with m show "max_element ps < length ps"
    and "\<forall>j<length ps. sint (ps ! j) \<le> sint (ps ! max_element ps)"
    and "\<forall>j<max_element ps. sint (ps ! j) < sint (ps ! max_element ps)" by simp_all
qed

subsection \<open>The priority update\<close>

lemma fold_transform:
  "n \<le> length ps \<Longrightarrow> index < length ps \<Longrightarrow>
   length (fold (\<lambda>i qs. qs[i := age a (qs ! index) (qs ! i)]) [0..<n] ps) = length ps \<and>
   (\<forall>j<length ps. fold (\<lambda>i qs. qs[i := age a (qs ! index) (qs ! i)]) [0..<n] ps ! j =
      (if j < n then aged a index ps j else ps ! j))"
proof (induction n)
  case 0
  then show ?case by simp
next
  case (Suc n)
  let ?f = "\<lambda>i qs. qs[i := age a (qs ! index) (qs ! i)]"
  let ?qs = "fold ?f [0..<n] ps"
  from Suc have len: "length ?qs = length ps"
    and nth: "\<And>j. j < length ps \<Longrightarrow> ?qs ! j = (if j < n then aged a index ps j else ps ! j)"
    by simp_all
  have step: "fold ?f [0..<Suc n] ps = ?qs[n := age a (?qs ! index) (?qs ! n)]"
    by simp
  have n: "n < length ps" using Suc.prems by simp
  have qn: "?qs ! n = ps ! n" using nth [OF n] by simp
  have qi: "?qs ! index = (if index < n then age a (ps ! index) (ps ! index) else ps ! index)"
    using nth [OF Suc.prems(2)] by (simp add: aged_def)
  have new: "age a (?qs ! index) (?qs ! n) = aged a index ps n"
    unfolding qn qi aged_def by auto
  show ?case
  proof (intro conjI allI impI)
    show "length (fold ?f [0..<Suc n] ps) = length ps" unfolding step using len by simp
  next
    fix j assume j: "j < length ps"
    show "fold ?f [0..<Suc n] ps ! j = (if j < Suc n then aged a index ps j else ps ! j)"
    proof (cases "j = n")
      case True
      then show ?thesis unfolding step new using n len by simp
    next
      case False
      then have "fold ?f [0..<Suc n] ps ! j = ?qs ! j" unfolding step by simp
      with nth [OF j] False show ?thesis by (auto simp: less_Suc_eq)
    qed
  qed
qed

lemma nth_transform_priority:
  "index < length ps \<Longrightarrow> j < length ps \<Longrightarrow>
   transform_priority a index ps ! j = aged a index ps j"
  unfolding transform_priority_def using fold_transform [of "length ps" ps index a] by simp

lemma length_fold_update:
  "length (fold (\<lambda>i qs. qs[i := f qs i]) is ps) = length ps"
  by (induction "is" arbitrary: ps) simp_all

lemma length_transform_priority' [simp]:
  "length (transform_priority a index ps) = length ps"
  unfolding transform_priority_def by (rule length_fold_update)

lemma update_priority_simps [simp]:
  "local_tags (update_priority a k ls) = local_tags ls"
  "local_dirty (update_priority a k ls) = local_dirty ls"
  "local_valid (update_priority a k ls) = local_valid ls"
  "length (local_priority (update_priority a k ls)) = length (local_priority ls)"
  by (simp_all add: update_priority_def)

lemma nth_update_priority:
  "k < length (local_priority ls) \<Longrightarrow> j < length (local_priority ls) \<Longrightarrow>
   local_priority (update_priority a k ls) ! j =
     (if j = k then 0 else aged a k (local_priority ls) j)"
  by (simp add: update_priority_def nth_transform_priority)

lemma age_of_nat:
  "x \<le> y \<Longrightarrow> y < 2 ^ 31 \<Longrightarrow> x < unat a \<Longrightarrow>
   age a (word_of_nat y) (word_of_nat x) = word_of_nat (Suc x)"
  by (simp add: age_def sint_of_nat_u32 of_nat_less_u32)

subsection \<open>A probe of one set\<close>

lemma probe_set_hit:
  assumes "lookup tag ls 0 (- 1) = (Some k, r)" and "length (local_valid ls) \<le> 2 ^ 31"
  shows "probe_set a type tag ls =
     Inr (update_priority a k
            (ls\<lparr>local_dirty := (local_dirty ls)[k := (local_dirty ls ! k \<or> type)]\<rparr>), True, False)"
proof -
  from lookup_hit [OF assms(1)] have "k < length (local_valid ls)" by simp
  with assms(2) have "k < 2 ^ 31" by simp
  then have "to_int k = int k" by (rule to_int_id)
  then show ?thesis by (simp add: probe_set_def assms(1) Let_def)
qed

lemma probe_set_fill:
  assumes "lookup tag ls 0 (- 1) = (None, r)" and "length (local_valid ls) \<le> 2 ^ 31"
    and "k < length (local_valid ls)" and "\<not> local_valid ls ! k"
    and "\<forall>j. k < j \<and> j < length (local_valid ls) \<longrightarrow> local_valid ls ! j"
  shows "probe_set a type tag ls =
     Inr (update_priority a k
            (ls\<lparr>local_valid := (local_valid ls)[k := True],
                local_tags := (local_tags ls)[k := tag],
                local_dirty := (local_dirty ls)[k := type]\<rparr>), False, False)"
proof -
  from lookup_miss [OF assms(1)] assms(3,4)
  obtain k' where k': "k' < length (local_valid ls)" "\<not> local_valid ls ! k'" "r = to_int k'"
    "\<forall>j. k' < j \<and> j < length (local_valid ls) \<longrightarrow> local_valid ls ! j"
    by auto
  have "k' = k"
  proof (rule ccontr)
    assume "k' \<noteq> k"
    then consider "k' < k" | "k < k'" by linarith
    then show False
    proof cases
      case 1
      with k'(4) assms(3,4) show False by simp
    next
      case 2
      with assms(5) k'(1,2) show False by simp
    qed
  qed
  moreover from assms(2,3) have "k < 2 ^ 31" by simp
  then have "to_int k = int k" by (rule to_int_id)
  ultimately have "r = int k" using k'(3) by simp
  then show ?thesis by (simp add: probe_set_def assms(1) Let_def)
qed

lemma probe_set_evict:
  assumes "lookup tag ls 0 (- 1) = (None, r)" and "length (local_priority ls) \<le> 2 ^ 31"
    and "\<forall>j<length (local_valid ls). local_valid ls ! j" and "local_priority ls \<noteq> []"
  shows "probe_set a type tag ls =
     Inr (update_priority a (max_element (local_priority ls))
            (ls\<lparr>local_tags := (local_tags ls)[max_element (local_priority ls) := tag],
                local_dirty := (local_dirty ls)[max_element (local_priority ls) := type]\<rparr>),
          False, local_dirty ls ! max_element (local_priority ls))"
proof -
  from lookup_miss [OF assms(1)] assms(3) have r: "r = - 1" by auto
  let ?m = "max_element (local_priority ls)"
  have m: "?m < length (local_priority ls)" by (rule max_element_spec(1) [OF assms(4)])
  with assms(2) have "?m < 2 ^ 31" by simp
  then have "to_int ?m = int ?m" by (rule to_int_id)
  then show ?thesis using m by (simp add: probe_set_def assms(1) r Let_def)
qed

lemma probe_set_empty:
  assumes "local_valid ls = []" and "local_priority ls = []"
  shows "probe_set a type tag ls = Inl OutOfBounds"
proof -
  have "to_int (max_element []) = 0" by (simp add: max_element_def to_int_def)
  then show ?thesis
    by (simp add: probe_set_def lookup_empty [OF assms(1)] assms(2) Let_def)
qed

lemma probe_set_lengths:
  assumes "probe_set a type tag ls = Inr (ls', hit, dwb)"
  shows "length (local_tags ls') = length (local_tags ls)"
    and "length (local_dirty ls') = length (local_dirty ls)"
    and "length (local_valid ls') = length (local_valid ls)"
    and "length (local_priority ls') = length (local_priority ls)"
  using assms
  by (auto simp: probe_set_def Let_def split: prod.splits option.splits if_splits)

lemma probe_set_set_lengths:
  "probe_set a type tag ls = Inr (ls', hit, dwb) \<Longrightarrow> set_lengths n ls \<Longrightarrow> set_lengths n ls'"
  using probe_set_lengths [of a type tag ls ls' hit dwb] by (simp add: set_lengths_def)

lemma probe_set_miss_cases:
  assumes ps: "probe_set a type tag ls = Inr (ls', False, dwb)"
    and sl: "set_lengths n ls" and n: "n \<le> 2 ^ 31"
  shows "if \<exists>i<n. \<not> local_valid ls ! i
     then \<exists>k<n. \<not> local_valid ls ! k \<and>
            local_valid ls' = (local_valid ls)[k := True] \<and>
            local_tags ls' = (local_tags ls)[k := tag] \<and>
            local_dirty ls' = (local_dirty ls)[k := type] \<and> \<not> dwb
     else \<exists>k<n. (\<forall>j<n. sint (local_priority ls ! j) \<le> sint (local_priority ls ! k)) \<and>
            (\<forall>j<k. sint (local_priority ls ! j) < sint (local_priority ls ! k)) \<and>
            local_valid ls' = local_valid ls \<and>
            local_tags ls' = (local_tags ls)[k := tag] \<and>
            local_dirty ls' = (local_dirty ls)[k := type] \<and> dwb = local_dirty ls ! k"
proof -
  from sl have len: "length (local_valid ls) = n" "length (local_priority ls) = n"
    "length (local_tags ls) = n" "length (local_dirty ls) = n"
    by (simp_all add: set_lengths_def)
  obtain h r where lk: "lookup tag ls 0 (- 1) = (h, r)" by (cases "lookup tag ls 0 (- 1)") auto
  have le: "length (local_valid ls) \<le> 2 ^ 31" "length (local_priority ls) \<le> 2 ^ 31"
    using len n by simp_all
  have h: "h = None"
  proof (cases h)
    case (Some k)
    with probe_set_hit [OF lk [unfolded Some] le(1)] ps show ?thesis by simp
  qed simp
  note lk = lk [unfolded h]
  show ?thesis
  proof (cases "\<exists>i<n. \<not> local_valid ls ! i")
    case True
    with lookup_miss [OF lk] len(1)
    obtain k where k: "k < n" "\<not> local_valid ls ! k"
      "\<forall>j. k < j \<and> j < length (local_valid ls) \<longrightarrow> local_valid ls ! j"
      by auto
    from probe_set_fill [OF lk le(1) _ k(2,3), of a type] k(1) len(1) ps
    have "ls' = update_priority a k
            (ls\<lparr>local_valid := (local_valid ls)[k := True],
                local_tags := (local_tags ls)[k := tag],
                local_dirty := (local_dirty ls)[k := type]\<rparr>)" and "\<not> dwb"
      by simp_all
    then have "\<not> local_valid ls ! k \<and>
            local_valid ls' = (local_valid ls)[k := True] \<and>
            local_tags ls' = (local_tags ls)[k := tag] \<and>
            local_dirty ls' = (local_dirty ls)[k := type] \<and> \<not> dwb"
      using k(2) by simp
    with k(1) True show ?thesis by auto
  next
    case False
    then have av: "\<forall>j<length (local_valid ls). local_valid ls ! j" using len(1) by simp
    have ne: "local_priority ls \<noteq> []"
    proof
      assume e: "local_priority ls = []"
      with len have "local_valid ls = []" by simp
      from probe_set_empty [OF this e] ps show False by simp
    qed
    let ?k = "max_element (local_priority ls)"
    note m = max_element_spec [OF ne]
    from probe_set_evict [OF lk le(2) av ne, of a type] ps
    have "ls' = update_priority a ?k
            (ls\<lparr>local_tags := (local_tags ls)[?k := tag],
                local_dirty := (local_dirty ls)[?k := type]\<rparr>)"
      and "dwb = local_dirty ls ! ?k"
      by simp_all
    then have "local_valid ls' = local_valid ls \<and>
            local_tags ls' = (local_tags ls)[?k := tag] \<and>
            local_dirty ls' = (local_dirty ls)[?k := type] \<and> dwb = local_dirty ls ! ?k"
      by simp
    with m len(2) have "?k < n \<and> (\<forall>j<n. sint (local_priority ls ! j) \<le> sint (local_priority ls ! ?k)) \<and>
            (\<forall>j<?k. sint (local_priority ls ! j) < sint (local_priority ls ! ?k)) \<and>
            local_valid ls' = local_valid ls \<and>
            local_tags ls' = (local_tags ls)[?k := tag] \<and>
            local_dirty ls' = (local_dirty ls)[?k := type] \<and> dwb = local_dirty ls ! ?k"
      by simp
    then have "\<exists>k<n. (\<forall>j<n. sint (local_priority ls ! j) \<le> sint (local_priority ls ! k)) \<and>
            (\<forall>j<k. sint (local_priority ls ! j) < sint (local_priority ls ! k)) \<and>
            local_valid ls' = local_valid ls \<and>
            local_tags ls' = (local_tags ls)[k := tag] \<and>
            local_dirty ls' = (local_dirty ls)[k := type] \<and> dwb = local_dirty ls ! k"
      by blast
    then show ?thesis by (simp only: if_not_P [OF False])
  qed
qed

lemma probe_set_priority:
  assumes ps: "probe_set a type tag ls = Inr (ls', hit, dwb)"
    and sl: "set_lengths n ls" and n: "n \<le> 2 ^ 31"
  shows "\<exists>k<n. \<forall>j<n. local_priority ls' ! j =
           (if j = k then 0 else aged a k (local_priority ls) j)"
proof -
  from sl have len: "length (local_valid ls) = n" "length (local_priority ls) = n"
    by (simp_all add: set_lengths_def)
  have le: "length (local_valid ls) \<le> 2 ^ 31" "length (local_priority ls) \<le> 2 ^ 31"
    using len n by simp_all
  have upd: "\<exists>k<n. \<forall>j<n. local_priority ls' ! j =
           (if j = k then 0 else aged a k (local_priority ls) j)"
    if "k < n" "ls' = update_priority a k ls2" "local_priority ls2 = local_priority ls"
    for k ls2
  proof -
    have "local_priority ls' ! j = (if j = k then 0 else aged a k (local_priority ls) j)"
      if "j < n" for j
      using nth_update_priority [of k ls2 j a] \<open>k < n\<close> that len(2)
      by (simp add: \<open>ls' = update_priority a k ls2\<close> \<open>local_priority ls2 = local_priority ls\<close>)
    with \<open>k < n\<close> show ?thesis by blast
  qed
  obtain h r where lk: "lookup tag ls 0 (- 1) = (h, r)" by (cases "lookup tag ls 0 (- 1)") auto
  show ?thesis
  proof (cases h)
    case (Some k)
    note lk' = lk [unfolded Some]
    from lookup_hit [OF lk'] len have k: "k < n" by simp
    from probe_set_hit [OF lk' le(1), of a type] ps
    have "ls' = update_priority a k
            (ls\<lparr>local_dirty := (local_dirty ls)[k := (local_dirty ls ! k \<or> type)]\<rparr>)"
      by simp
    then show ?thesis by (rule upd [OF k]) simp
  next
    case None
    note lk' = lk [unfolded None]
    show ?thesis
    proof (cases "\<exists>i<n. \<not> local_valid ls ! i")
      case True
      with lookup_miss [OF lk'] len(1)
      obtain k where k: "k < n" "\<not> local_valid ls ! k"
        "\<forall>j. k < j \<and> j < length (local_valid ls) \<longrightarrow> local_valid ls ! j"
        by auto
      from probe_set_fill [OF lk' le(1) _ k(2,3), of a type] k(1) len(1) ps
      have "ls' = update_priority a k
            (ls\<lparr>local_valid := (local_valid ls)[k := True],
                local_tags := (local_tags ls)[k := tag],
                local_dirty := (local_dirty ls)[k := type]\<rparr>)"
        by simp
      then show ?thesis by (rule upd [OF k(1)]) simp
    next
      case False
      then have av: "\<forall>j<length (local_valid ls). local_valid ls ! j" using len(1) by simp
      have ne: "local_priority ls \<noteq> []"
      proof
        assume e: "local_priority ls = []"
        with len have "local_valid ls = []" by simp
        from probe_set_empty [OF this e] ps show False by simp
      qed
      let ?k = "max_element (local_priority ls)"
      have k: "?k < n" using max_element_spec(1) [OF ne] len by simp
      from probe_set_evict [OF lk' le(2) av ne, of a type] ps
      have "ls' = update_priority a ?k
            (ls\<lparr>local_tags := (local_tags ls)[?k := tag],
                local_dirty := (local_dirty ls)[?k := type]\<rparr>)"
        by simp
      then show ?thesis by (rule upd [OF k]) simp
    qed
  qed
qed

lemma probe_set_total:
  assumes sl: "set_lengths n ls" and n: "0 < n" "n \<le> 2 ^ 31"
  shows "\<exists>ls' hit dwb. probe_set a type tag ls = Inr (ls', hit, dwb)"
proof -
  from sl have len: "length (local_valid ls) = n" "length (local_priority ls) = n"
    by (simp_all add: set_lengths_def)
  have le: "length (local_valid ls) \<le> 2 ^ 31" "length (local_priority ls) \<le> 2 ^ 31"
    using len n by simp_all
  obtain h r where lk: "lookup tag ls 0 (- 1) = (h, r)" by (cases "lookup tag ls 0 (- 1)") auto
  show ?thesis
  proof (cases h)
    case (Some k)
    from probe_set_hit [OF lk [unfolded Some] le(1), of a type] show ?thesis by blast
  next
    case None
    note lk' = lk [unfolded None]
    show ?thesis
    proof (cases "\<exists>i<n. \<not> local_valid ls ! i")
      case True
      with lookup_miss [OF lk'] len(1)
      obtain k where k: "k < n" "\<not> local_valid ls ! k"
        "\<forall>j. k < j \<and> j < length (local_valid ls) \<longrightarrow> local_valid ls ! j"
        by auto
      from probe_set_fill [OF lk' le(1) _ k(2,3), of a type] k(1) len(1)
      show ?thesis by blast
    next
      case False
      then have av: "\<forall>j<length (local_valid ls). local_valid ls ! j" using len(1) by simp
      have ne: "local_priority ls \<noteq> []" using len n by auto
      from probe_set_evict [OF lk' le(2) av ne, of a type] show ?thesis by blast
    qed
  qed
qed

subsection \<open>Spans and the whole cache\<close>

lemma span_write_span:
  "length ys = n \<Longrightarrow> base + n \<le> length xs \<Longrightarrow> span base n (write_span base ys xs) = ys"
  by (simp add: span_def write_span_def)

lemma span_replicate: "b + n \<le> m \<Longrightarrow> span b n (replicate m x) = replicate n x"
  by (simp add: span_def min_def)

lemma in_bounds_lengths:
  "in_bounds s base \<Longrightarrow> set_lengths (unat (associativity s)) (get_cache_set s base)"
  by (auto simp: in_bounds_def set_lengths_def get_cache_set_def Let_def span_def)

lemma get_put_cache_set:
  assumes "in_bounds s base" and "set_lengths (unat (associativity s)) ls"
  shows "get_cache_set (put_cache_set s base ls) base = ls"
proof -
  let ?n = "unat (associativity s)"
  from assms have "span base ?n (write_span base (local_tags ls) (tags s)) = local_tags ls"
    "span base ?n (write_span base (local_dirty ls) (dirty s)) = local_dirty ls"
    "span base ?n (write_span base (local_valid ls) (valid s)) = local_valid ls"
    "span base ?n (write_span base (local_priority ls) (priority s)) = local_priority ls"
    by (simp_all add: in_bounds_def set_lengths_def Let_def span_write_span)
  then show ?thesis
    by (simp add: get_cache_set_def put_cache_set_def Let_def)
qed

lemma put_cache_set_fields [simp]:
  "block_size (put_cache_set s b ls) = block_size s"
  "associativity (put_cache_set s b ls) = associativity s"
  "capacity (put_cache_set s b ls) = capacity s"
  "miss_penalty (put_cache_set s b ls) = miss_penalty s"
  "dirty_wb_penalty (put_cache_set s b ls) = dirty_wb_penalty s"
  "set_offset (put_cache_set s b ls) = set_offset s"
  "tag_offset (put_cache_set s b ls) = tag_offset s"
  "set_mask (put_cache_set s b ls) = set_mask s"
  "m_writes (put_cache_set s b ls) = m_writes s"
  "m_mem_accesses (put_cache_set s b ls) = m_mem_accesses s"
  "m_misses (put_cache_set s b ls) = m_misses s"
  "m_dirty_wb (put_cache_set s b ls) = m_dirty_wb s"
  "m_instructions (put_cache_set s b ls) = m_instructions s"
  by (simp_all add: put_cache_set_def)

lemma put_cache_set_frame:
  assumes "in_bounds s base" and "set_lengths (unat (associativity s)) ls"
  shows "length (tags (put_cache_set s base ls)) = length (tags s)"
    and "length (dirty (put_cache_set s base ls)) = length (dirty s)"
    and "length (valid (put_cache_set s base ls)) = length (valid s)"
    and "length (priority (put_cache_set s base ls)) = length (priority s)"
    and "take base (tags (put_cache_set s base ls)) = take base (tags s)"
    and "take base (dirty (put_cache_set s base ls)) = take base (dirty s)"
    and "take base (valid (put_cache_set s base ls)) = take base (valid s)"
    and "take base (priority (put_cache_set s base ls)) = take base (priority s)"
    and "drop (base + unat (associativity s)) (tags (put_cache_set s base ls)) =
         drop (base + unat (associativity s)) (tags s)"
    and "drop (base + unat (associativity s)) (dirty (put_cache_set s base ls)) =
         drop (base + unat (associativity s)) (dirty s)"
    and "drop (base + unat (associativity s)) (valid (put_cache_set s base ls)) =
         drop (base + unat (associativity s)) (valid s)"
    and "drop (base + unat (associativity s)) (priority (put_cache_set s base ls)) =
         drop (base + unat (associativity s)) (priority s)"
  using assms
  by (simp_all add: put_cache_set_def in_bounds_def set_lengths_def Let_def write_span_def)

lemma put_cache_set_in_bounds:
  assumes "in_bounds s b" and "set_lengths (unat (associativity s)) ls"
  shows "in_bounds (put_cache_set s b ls) b"
  using put_cache_set_frame(1-4) [OF assms] assms(1)
  by (simp add: in_bounds_def)

lemma probe_Inr:
  assumes "probe s type address = Inr (s', hit, dwb)"
  shows "in_bounds s (set_base s address)"
    and "\<exists>ls'. probe_set (associativity s) type (get_tag s address)
            (get_cache_set s (set_base s address)) = Inr (ls', hit, dwb) \<and>
          s' = put_cache_set s (set_base s address) ls'"
  using assms
  by (auto simp: probe_def Let_def split: if_splits sum.splits)

lemma probe_get_cache_set:
  assumes "probe s type address = Inr (s', hit, dwb)"
  shows "probe_set (associativity s) type (get_tag s address)
            (get_cache_set s (set_base s address)) =
           Inr (get_cache_set s' (set_base s address), hit, dwb)"
    and "set_lengths (unat (associativity s)) (get_cache_set s (set_base s address))"
    and "set_lengths (unat (associativity s)) (get_cache_set s' (set_base s address))"
proof -
  let ?b = "set_base s address"
  from probe_Inr [OF assms] obtain ls' where
    ib: "in_bounds s ?b" and
    ps: "probe_set (associativity s) type (get_tag s address) (get_cache_set s ?b) = Inr (ls', hit, dwb)" and
    s': "s' = put_cache_set s ?b ls'" by blast
  show sl: "set_lengths (unat (associativity s)) (get_cache_set s ?b)"
    by (rule in_bounds_lengths [OF ib])
  have sl': "set_lengths (unat (associativity s)) ls'"
    by (rule probe_set_set_lengths [OF ps sl])
  have g: "get_cache_set s' ?b = ls'" unfolding s' by (rule get_put_cache_set [OF ib sl'])
  with ps show "probe_set (associativity s) type (get_tag s address) (get_cache_set s ?b) =
           Inr (get_cache_set s' ?b, hit, dwb)" by simp
  from g sl' show "set_lengths (unat (associativity s)) (get_cache_set s' ?b)" by simp
qed

lemma probe_frame_aux:
  assumes "probe s type address = Inr (s', hit, dirty_wb)"
  shows "(block_size s' = block_size s \<and> associativity s' = associativity s \<and>
          capacity s' = capacity s \<and> miss_penalty s' = miss_penalty s \<and>
          dirty_wb_penalty s' = dirty_wb_penalty s \<and> set_offset s' = set_offset s \<and>
          tag_offset s' = tag_offset s \<and> set_mask s' = set_mask s) \<and>
         (m_writes s' = m_writes s \<and> m_mem_accesses s' = m_mem_accesses s \<and>
          m_misses s' = m_misses s \<and> m_dirty_wb s' = m_dirty_wb s \<and>
          m_instructions s' = m_instructions s) \<and>
         (length (tags s') = length (tags s) \<and> length (dirty s') = length (dirty s) \<and>
          length (valid s') = length (valid s) \<and> length (priority s') = length (priority s)) \<and>
         (take (set_base s address) (tags s') = take (set_base s address) (tags s) \<and>
          take (set_base s address) (dirty s') = take (set_base s address) (dirty s) \<and>
          take (set_base s address) (valid s') = take (set_base s address) (valid s) \<and>
          take (set_base s address) (priority s') = take (set_base s address) (priority s)) \<and>
         (drop (set_base s address + unat (associativity s)) (tags s') =
            drop (set_base s address + unat (associativity s)) (tags s) \<and>
          drop (set_base s address + unat (associativity s)) (dirty s') =
            drop (set_base s address + unat (associativity s)) (dirty s) \<and>
          drop (set_base s address + unat (associativity s)) (valid s') =
            drop (set_base s address + unat (associativity s)) (valid s) \<and>
          drop (set_base s address + unat (associativity s)) (priority s') =
            drop (set_base s address + unat (associativity s)) (priority s))"
proof -
  let ?b = "set_base s address"
  from probe_Inr [OF assms] obtain ls' where
    ib: "in_bounds s ?b" and
    ps: "probe_set (associativity s) type (get_tag s address) (get_cache_set s ?b) = Inr (ls', hit, dirty_wb)" and
    s': "s' = put_cache_set s ?b ls'" by blast
  have sl: "set_lengths (unat (associativity s)) ls'"
    by (rule probe_set_set_lengths [OF ps in_bounds_lengths [OF ib]])
  note fr = put_cache_set_frame [OF ib sl]
  show ?thesis unfolding s' using fr by simp
qed

lemma get_set_le_mask: "unat (get_set s address) \<le> unat (set_mask s)"
proof -
  let ?x = "drop_bit (unat (set_offset s)) address AND (ucast (set_mask s) :: u64)"
  have "?x \<le> ucast (set_mask s)" by (rule word_and_le1)
  then have "unat ?x \<le> unat (ucast (set_mask s) :: u64)" by (simp add: word_le_nat_alt)
  also have "\<dots> = unat (set_mask s)" by (rule unat_ucast_32_64)
  finally have 1: "unat ?x \<le> unat (set_mask s)" .
  have "unat (ucast ?x :: u32) \<le> unat ?x"
    by (rule unat_ucast_64_32_le)
  with 1 show ?thesis by (simp add: get_set_def Let_def)
qed

lemma init_in_bounds:
  assumes i: "CacheSim_init bs a c mp wbp = Inr s"
    and nov: "unat bs * unat a < 2 ^ 32" and sets: "c div (bs * a) \<noteq> 0"
  shows "in_bounds s (set_base s address)"
proof -
  note f = init_fields [OF i]
  let ?A = "unat a" and ?B = "unat bs" and ?C = "unat c"
  let ?S = "?C div (?B * ?A)"
  have B: "0 < ?B" using f(1) by (simp add: unat_gt_0)
  have ba: "unat (bs * a) = ?B * ?A" using nov by (simp add: unat_mult_lem [THEN iffD1])
  have S: "unat (c div (bs * a)) = ?S" by (simp add: unat_div ba)
  have m: "unat (set_mask s) = ?S - 1" using sets by (simp add: f(5) unat_minus_one S)
  have S1: "1 \<le> ?S" using sets S by (metis One_nat_def Suc_leI unat_gt_0)
  have g: "unat (get_set s address) \<le> ?S - 1" using get_set_le_mask [of s address] m by simp
  have "set_base s address \<le> unat (get_set s address) * ?A"
    by (simp add: set_base_def f(4) unat_mult_le)
  also have "\<dots> \<le> (?S - 1) * ?A" using g by simp
  finally have "set_base s address + ?A \<le> (?S - 1) * ?A + ?A" by simp
  also have "\<dots> = ?S * ?A" using S1 by (simp add: algebra_simps)
  finally have 1: "set_base s address + ?A \<le> ?S * ?A" .
  have "?S * (?B * ?A) \<le> ?C" by (rule div_times_less_eq_dividend)
  then have "?S * ?A * ?B \<le> ?C" by (simp add: mult_ac)
  then have "?S * ?A \<le> ?C div ?B" using B by (simp add: less_eq_div_iff_mult_less_eq)
  with 1 have "set_base s address + ?A \<le> unat (c div bs)" by (simp add: unat_div)
  then show ?thesis by (simp add: in_bounds_def f Let_def)
qed

lemma set_base_exact:
  "unat (get_set s address) * unat (associativity s) < 2 ^ 32 \<Longrightarrow>
   set_base s address = unat (get_set s address) * unat (associativity s)"
  by (simp add: set_base_def unat_mult_lem [THEN iffD1])

lemma init_set_base:
  assumes i: "CacheSim_init bs a c mp wbp = Inr s"
    and nov: "unat bs * unat a < 2 ^ 32" and sets: "c div (bs * a) \<noteq> 0"
  shows "set_base s address = unat (get_set s address) * unat a"
proof -
  note f = init_fields [OF i]
  let ?A = "unat a" and ?B = "unat bs" and ?C = "unat c"
  let ?S = "?C div (?B * ?A)"
  have B: "0 < ?B" using f(1) by (simp add: unat_gt_0)
  have ba: "unat (bs * a) = ?B * ?A" using nov by (simp add: unat_mult_lem [THEN iffD1])
  have S: "unat (c div (bs * a)) = ?S" by (simp add: unat_div ba)
  have m: "unat (set_mask s) = ?S - 1" using sets by (simp add: f(5) unat_minus_one S)
  have g: "unat (get_set s address) \<le> ?S - 1" using get_set_le_mask [of s address] m by simp
  then have "unat (get_set s address) \<le> ?S" by linarith
  then have "unat (get_set s address) * ?A \<le> ?S * ?A" by (rule mult_le_mono1)
  also have "?S * ?A \<le> ?C div ?B"
  proof -
    have "?S * (?B * ?A) \<le> ?C" by (rule div_times_less_eq_dividend)
    then have "?S * ?A * ?B \<le> ?C" by (simp add: mult_ac)
    then show ?thesis using B by (simp add: less_eq_div_iff_mult_less_eq)
  qed
  also have "\<dots> \<le> ?C" by simp
  also have "?C < 2 ^ 32" using unsigned_less [of c] by simp
  finally have "unat (get_set s address) * unat (associativity s) < 2 ^ 32" by (simp add: f(4))
  from set_base_exact [OF this] show ?thesis by (simp add: f(4))
qed

subsection \<open>Runs\<close>

lemma run_append:
  "run s (xs @ ys) = (case run s xs of Inl e \<Rightarrow> Inl e | Inr s' \<Rightarrow> run s' ys)"
proof (induction xs arbitrary: s)
  case Nil
  then show ?case by simp
next
  case (Cons x xs)
  obtain type address instructions where x: "x = (type, address, instructions)"
    by (cases x) auto
  show ?case
    by (cases "probe s type address") (auto simp: x Cons.IH)
qed

lemma same_geometry_refl [simp]: "same_geometry s s"
  by (simp add: same_geometry_def)

lemma same_geometry_trans: "same_geometry s s' \<Longrightarrow> same_geometry s' s'' \<Longrightarrow> same_geometry s s''"
  by (simp add: same_geometry_def)

lemma same_geometry_decode:
  assumes "same_geometry s s'"
  shows "get_tag s' address = get_tag s address" and "get_set s' address = get_set s address"
    and "set_base s' address = set_base s address"
  using assms by (simp_all add: same_geometry_def get_tag_def get_set_def set_base_def)

lemma put_cache_set_geometry [simp]: "same_geometry s (put_cache_set s b ls)"
  by (simp add: same_geometry_def)

lemma update_stats_cache [simp]:
  "get_cache_set (update_stats s i t h d) b = get_cache_set s b"
  "in_bounds (update_stats s i t h d) b = in_bounds s b"
  "same_geometry s' (update_stats s i t h d) = same_geometry s' s"
  by (simp_all add: update_stats_def get_cache_set_def in_bounds_def same_geometry_def)

lemma probe_lift:
  assumes ib: "in_bounds s b" and sb: "set_base s address = b"
    and ps: "probe_set (associativity s) type (get_tag s address) (get_cache_set s b) = Inr (ls', hit, d)"
  shows "\<exists>s'. probe s type address = Inr (s', hit, d) \<and> same_geometry s s' \<and>
           in_bounds s' b \<and> get_cache_set s' b = ls'"
proof -
  have sl: "set_lengths (unat (associativity s)) ls'"
    by (rule probe_set_set_lengths [OF ps in_bounds_lengths [OF ib]])
  have "probe s type address = Inr (put_cache_set s b ls', hit, d)"
    using ib sb ps by (simp add: probe_def Let_def)
  moreover have "in_bounds (put_cache_set s b ls') b" by (rule put_cache_set_in_bounds [OF ib sl])
  moreover have "get_cache_set (put_cache_set s b ls') b = ls'" by (rule get_put_cache_set [OF ib sl])
  ultimately show ?thesis by (intro exI [of _ "put_cache_set s b ls'"]) simp
qed

lemma resident_iff:
  assumes "set_base s address = b" and "set_lengths n (get_cache_set s b)"
  shows "resident s address \<longleftrightarrow>
     (\<exists>k<n. local_valid (get_cache_set s b) ! k \<and>
            local_tags (get_cache_set s b) ! k = get_tag s address)"
  using assms by (auto simp: resident_def Let_def in_set_zip set_lengths_def)

lemma probe_total:
  assumes ib: "in_bounds s (set_base s address)"
    and a: "0 < unat (associativity s)" "unat (associativity s) \<le> 2 ^ 31"
  shows "\<exists>s' hit dwb. probe s type address = Inr (s', hit, dwb)"
proof -
  from probe_set_total [OF in_bounds_lengths [OF ib] a]
  obtain ls' hit dwb where "probe_set (associativity s) type (get_tag s address)
      (get_cache_set s (set_base s address)) = Inr (ls', hit, dwb)" by blast
  from probe_lift [OF ib refl this] show ?thesis by blast
qed

lemma in_bounds_cong:
  assumes "associativity s' = associativity s" and "length (tags s') = length (tags s)"
    and "length (dirty s') = length (dirty s)" and "length (valid s') = length (valid s)"
    and "length (priority s') = length (priority s)"
  shows "in_bounds s' b = in_bounds s b"
  using assms by (simp add: in_bounds_def)

lemma run_total:
  assumes "\<forall>address. in_bounds s (set_base s address)"
    and "0 < unat (associativity s)" and "unat (associativity s) \<le> 2 ^ 31"
  shows "\<exists>sf. run s accs = Inr sf"
  using assms
proof (induction accs arbitrary: s)
  case Nil
  then show ?case by simp
next
  case (Cons x accs)
  obtain type address instructions where x: "x = (type, address, instructions)"
    by (cases x) auto
  from probe_total [OF Cons.prems(1) [rule_format] Cons.prems(2,3), where address = address and type = type]
  obtain s' hit dwb where p: "probe s type address = Inr (s', hit, dwb)" by blast
  note fr = probe_frame_aux [OF p]
  let ?u = "update_stats s' instructions type hit dwb"
  have g: "same_geometry s ?u" using fr by (simp add: same_geometry_def update_stats_def)
  have ib: "in_bounds ?u b = in_bounds s b" for b
    using fr by (intro in_bounds_cong) (simp_all add: update_stats_def)
  have 1: "\<forall>address. in_bounds ?u (set_base ?u address)"
    using Cons.prems(1) ib same_geometry_decode(3) [OF g] by simp
  have 2: "0 < unat (associativity ?u)" "unat (associativity ?u) \<le> 2 ^ 31"
    using Cons.prems(2,3) g by (simp_all add: same_geometry_def)
  from Cons.IH [OF 1 2] obtain sf where "run ?u accs = Inr sf" by blast
  with p show ?case by (simp add: x)
qed

lemma init_run_total:
  assumes "CacheSim_init bs a c mp wbp = Inr s"
    and "unat bs * unat a < 2 ^ 32" and "c div (bs * a) \<noteq> 0" and "unat a \<le> 2 ^ 31"
  shows "\<exists>sf. run s accs = Inr sf"
proof (rule run_total)
  note f = init_fields [OF assms(1)]
  show "\<forall>address. in_bounds s (set_base s address)"
    using init_in_bounds [OF assms(1-3)] by blast
  have "a \<noteq> 0" using f(2) by auto
  then show "0 < unat (associativity s)" by (simp add: f(4) unat_gt_0)
  show "unat (associativity s) \<le> 2 ^ 31" using assms(4) by (simp add: f(4))
qed

subsection \<open>Filling a fresh set\<close>

lemma init_filled:
  assumes i: "CacheSim_init bs a c mp wbp = Inr s" and ib: "in_bounds s b"
  shows "filled (unat a) [] (get_cache_set s b)"
proof -
  note f = init_fields [OF i]
  from ib have "b + unat a \<le> unat (c div bs)" by (simp add: in_bounds_def f Let_def)
  then have "get_cache_set s b =
      \<lparr> local_tags = replicate (unat a) 0, local_dirty = replicate (unat a) False,
        local_valid = replicate (unat a) False, local_priority = replicate (unat a) 0 \<rparr>"
    by (simp add: get_cache_set_def f Let_def span_replicate)
  then show ?thesis by (simp add: filled_def set_lengths_def)
qed

lemma filled_no_hit:
  assumes f: "filled n ts ls" and t: "t \<notin> set ts"
  shows "\<exists>r. lookup t ls 0 (- 1) = (None, r)"
proof -
  obtain h r where lk: "lookup t ls 0 (- 1) = (h, r)" by (cases "lookup t ls 0 (- 1)") auto
  have "h = None"
  proof (cases h)
    case (Some k)
    from lookup_hit [OF lk [unfolded Some]] f
    have k: "k < n" "local_valid ls ! k" "local_tags ls ! k = t"
      by (simp_all add: filled_def set_lengths_def)
    with f have nk: "n - length ts \<le> k" by (simp add: filled_def)
    with f k(1) have "local_tags ls ! k = ts ! (n - 1 - k)" by (simp add: filled_def)
    moreover have "n - 1 - k < length ts" using nk k(1) by linarith
    ultimately have "t \<in> set ts" using k(3) by (metis nth_mem)
    with t show ?thesis by simp
  qed simp
  with lk show ?thesis by simp
qed

lemma filled_fill:
  assumes f: "filled n ts ls" and j: "length ts < n" and t: "t \<notin> set ts"
    and a: "unat a = n" and n: "n < 2 ^ 31"
  shows "\<exists>ls'. probe_set a type t ls = Inr (ls', False, False) \<and> filled n (ts @ [t]) ls'"
proof -
  let ?j = "length ts"
  let ?k = "n - ?j - 1"
  from f have len: "length (local_valid ls) = n" "length (local_priority ls) = n"
    "length (local_tags ls) = n" "length (local_dirty ls) = n"
    by (simp_all add: filled_def set_lengths_def)
  from f have va: "\<And>i. i < n \<Longrightarrow> local_valid ls ! i = (n - ?j \<le> i)"
    and ta: "\<And>i. i < n \<Longrightarrow> n - ?j \<le> i \<Longrightarrow> local_tags ls ! i = ts ! (n - 1 - i)"
    and pa: "\<And>i. i < n \<Longrightarrow> local_priority ls ! i =
          word_of_nat (if i < n - ?j then ?j else i - (n - ?j))"
    by (simp_all add: filled_def)
  from filled_no_hit [OF f t] obtain r where lk: "lookup t ls 0 (- 1) = (None, r)" ..
  have k: "?k < n" using j by simp
  have le: "length (local_valid ls) \<le> 2 ^ 31" using len n by simp
  have k1: "?k < length (local_valid ls)" using k len by simp
  have k2: "\<not> local_valid ls ! ?k" using va [OF k] j by simp
  have k3: "\<forall>i. ?k < i \<and> i < length (local_valid ls) \<longrightarrow> local_valid ls ! i"
    using va len by auto
  let ?ls2 = "ls\<lparr>local_valid := (local_valid ls)[?k := True],
                local_tags := (local_tags ls)[?k := t],
                local_dirty := (local_dirty ls)[?k := type]\<rparr>"
  let ?ls' = "update_priority a ?k ?ls2"
  have ps: "probe_set a type t ls = Inr (?ls', False, False)"
    by (rule probe_set_fill [OF lk le k1 k2 k3])
  have sl: "set_lengths n ?ls'" using len by (simp add: set_lengths_def)
  have v': "local_valid ?ls' ! i = (n - length (ts @ [t]) \<le> i)" if "i < n" for i
  proof (cases "i = ?k")
    case True
    with that len show ?thesis by simp
  next
    case False
    with that len va [OF that] j show ?thesis by (simp add: nth_list_update) linarith
  qed
  have t': "local_tags ?ls' ! i = (ts @ [t]) ! (n - 1 - i)"
    if "i < n" "n - length (ts @ [t]) \<le> i" for i
  proof (cases "i = ?k")
    case True
    have "n - 1 - ?k = ?j" using j by simp
    with True that len show ?thesis by simp
  next
    case False
    with that have i: "n - ?j \<le> i" by simp
    then have "n - 1 - i < ?j" using that(1) by linarith
    with False that len ta [OF that(1) i] show ?thesis by (simp add: nth_append)
  qed
  have kl: "?k < n - ?j" using j by linarith
  have pk: "local_priority ls ! ?k = word_of_nat ?j" using pa [OF k] by (simp only: kl if_True)
  have lp2: "local_priority ?ls2 = local_priority ls" by simp
  have p': "local_priority ?ls' ! i =
      word_of_nat (if i < n - length (ts @ [t]) then length (ts @ [t])
                   else i - (n - length (ts @ [t])))" if "i < n" for i
  proof -
    have nu: "local_priority ?ls' ! i =
        (if i = ?k then 0 else aged a ?k (local_priority ls) i)"
      using nth_update_priority [of ?k ?ls2 i a] k that len by simp
    have jj: "age a (word_of_nat ?j) (word_of_nat ?j) = (word_of_nat (Suc ?j) :: i32)"
      using j n a by (intro age_of_nat) simp_all
    consider "i < ?k" | "i = ?k" | "?k < i" by linarith
    then show ?thesis
    proof cases
      case 1
      then have "i < n - ?j" by linarith
      then have "local_priority ls ! i = word_of_nat ?j" using pa [OF that] by (simp only: if_True)
      with 1 nu pk jj show ?thesis by (simp add: aged_def)
    next
      case 2
      with nu j show ?thesis by simp
    next
      case 3
      then have i: "\<not> i < n - ?j" by linarith
      then have pi: "local_priority ls ! i = word_of_nat (i - (n - ?j))"
        using pa [OF that] by (simp only: if_False)
      have x: "i - (n - ?j) \<le> Suc ?j" "Suc ?j < 2 ^ 31" "i - (n - ?j) < unat a"
        using that j n a by simp_all
      have ni: "\<not> i < ?k" "i \<noteq> ?k" using 3 by simp_all
      have "aged a ?k (local_priority ls) i =
          age a (age a (local_priority ls ! ?k) (local_priority ls ! ?k)) (local_priority ls ! i)"
        unfolding aged_def by (simp only: ni if_False)
      also have "\<dots> = age a (word_of_nat (Suc ?j)) (word_of_nat (i - (n - ?j)))"
        by (simp only: pk pi jj)
      also have "\<dots> = word_of_nat (Suc (i - (n - ?j)))" by (rule age_of_nat [OF x])
      also have "Suc (i - (n - ?j)) = i - (n - length (ts @ [t]))" using 3 j by simp
      finally show ?thesis using 3 nu by simp
    qed
  qed
  have "filled n (ts @ [t]) ?ls'"
    unfolding filled_def using sl j v' t' p' by simp
  with ps show ?thesis by blast
qed

lemma filled_evict:
  assumes f: "filled n ts ls" and j: "length ts = n" and t: "t \<notin> set ts"
    and n: "0 < n" "n < 2 ^ 31"
  shows "\<exists>ls' d. probe_set a type t ls = Inr (ls', False, d) \<and> set_lengths n ls' \<and>
           local_valid ls' = local_valid ls \<and>
           local_tags ls' = (local_tags ls)[n - 1 := t]"
proof -
  from f have len: "length (local_valid ls) = n" "length (local_priority ls) = n"
    "length (local_tags ls) = n" "length (local_dirty ls) = n"
    by (simp_all add: filled_def set_lengths_def)
  from f j have va: "\<And>i. i < n \<Longrightarrow> local_valid ls ! i"
    and pa: "\<And>i. i < n \<Longrightarrow> local_priority ls ! i = word_of_nat i"
    by (simp_all add: filled_def)
  from filled_no_hit [OF f t] obtain r where lk: "lookup t ls 0 (- 1) = (None, r)" ..
  have le: "length (local_priority ls) \<le> 2 ^ 31" using len n by simp
  have av: "\<forall>i<length (local_valid ls). local_valid ls ! i" using va len by simp
  have ne: "local_priority ls \<noteq> []" using len n by auto
  let ?k = "max_element (local_priority ls)"
  note m = max_element_spec [OF ne]
  have kn: "?k < n" using m(1) len by simp
  have n1: "n - 1 < n" using n by simp
  have s1: "sint (word_of_nat (n - 1) :: i32) = int (n - 1)"
    by (rule sint_of_nat_u32) (use n in simp)
  have s2: "sint (word_of_nat ?k :: i32) = int ?k"
    by (rule sint_of_nat_u32) (use kn n in simp)
  have "sint (local_priority ls ! (n - 1)) \<le> sint (local_priority ls ! ?k)"
    using m(2) len n1 by simp
  then have "int (n - 1) \<le> int ?k"
    by (simp only: pa [OF n1] pa [OF kn] s1 s2)
  with kn have k: "?k = n - 1" by linarith
  let ?ls' = "update_priority a ?k
            (ls\<lparr>local_tags := (local_tags ls)[?k := t],
                local_dirty := (local_dirty ls)[?k := type]\<rparr>)"
  have ps: "probe_set a type t ls = Inr (?ls', False, local_dirty ls ! ?k)"
    by (rule probe_set_evict [OF lk le av ne])
  have "set_lengths n ?ls'" using len by (simp add: set_lengths_def)
  moreover have "local_valid ?ls' = local_valid ls" by simp
  moreover have "local_tags ?ls' = (local_tags ls)[n - 1 := t]" using k by simp
  ultimately show ?thesis using ps by blast
qed

lemma run_fills:
  assumes "in_bounds s b" and "filled n ts (get_cache_set s b)"
    and "unat (associativity s) = n" and "n < 2 ^ 31"
    and "length ts + length accs \<le> n"
    and "distinct (ts @ map (\<lambda>x. get_tag s (fst (snd x))) accs)"
    and "\<forall>x\<in>set accs. set_base s (fst (snd x)) = b"
  shows "\<exists>sf. run s accs = Inr sf \<and> same_geometry s sf \<and> in_bounds sf b \<and>
           filled n (ts @ map (\<lambda>x. get_tag s (fst (snd x))) accs) (get_cache_set sf b)"
  using assms
proof (induction accs arbitrary: s ts)
  case Nil
  then show ?case by simp
next
  case (Cons x accs)
  obtain type address instructions where x: "x = (type, address, instructions)"
    by (cases x) auto
  let ?t = "get_tag s address"
  have j: "length ts < n" using Cons.prems(5) by simp
  have t: "?t \<notin> set ts" using Cons.prems(6) by (simp add: x)
  have sb: "set_base s address = b" using Cons.prems(7) by (simp add: x)
  from filled_fill [OF Cons.prems(2) j t Cons.prems(3,4), of type]
  obtain ls' where ps: "probe_set (associativity s) type ?t (get_cache_set s b) = Inr (ls', False, False)"
    and f': "filled n (ts @ [?t]) ls'" by blast
  from probe_lift [OF Cons.prems(1) sb ps]
  obtain s' where p: "probe s type address = Inr (s', False, False)"
    and g: "same_geometry s s'" and ib': "in_bounds s' b" and gc: "get_cache_set s' b = ls'"
    by blast
  let ?u = "update_stats s' instructions type False False"
  have gu: "same_geometry s ?u" using g by simp
  have tag_eq: "\<And>y. get_tag ?u y = get_tag s y" and base_eq: "\<And>y. set_base ?u y = set_base s y"
    using same_geometry_decode [OF gu] by simp_all
  have 1: "in_bounds ?u b" using ib' by simp
  have 2: "filled n (ts @ [?t]) (get_cache_set ?u b)" using f' gc by simp
  have 3: "unat (associativity ?u) = n" using gu Cons.prems(3) by (simp add: same_geometry_def)
  have 5: "length (ts @ [?t]) + length accs \<le> n" using Cons.prems(5) by simp
  have 6: "distinct ((ts @ [?t]) @ map (\<lambda>x. get_tag ?u (fst (snd x))) accs)"
    using Cons.prems(6) by (simp add: x tag_eq)
  have 7: "\<forall>x\<in>set accs. set_base ?u (fst (snd x)) = b"
    using Cons.prems(7) by (simp add: base_eq)
  from Cons.IH [OF 1 2 3 Cons.prems(4) 5 6 7]
  obtain sf where r: "run ?u accs = Inr sf" and gf: "same_geometry ?u sf"
    and ibf: "in_bounds sf b"
    and ff: "filled n ((ts @ [?t]) @ map (\<lambda>x. get_tag ?u (fst (snd x))) accs) (get_cache_set sf b)"
    by blast
  have "run s (x # accs) = Inr sf" using p r by (simp add: x)
  moreover have "same_geometry s sf" by (rule same_geometry_trans [OF gu gf])
  moreover have "filled n (ts @ map (\<lambda>x. get_tag s (fst (snd x))) (x # accs)) (get_cache_set sf b)"
    using ff by (simp add: x tag_eq)
  ultimately show ?case using ibf by blast
qed

section \<open>The claims\<close>

subsection \<open>Concrete caches\<close>

lemma init_two_way: "CacheSim_init 16 2 64 30 2 = Inr two_way_fresh"
  by code_simp

lemma init_four_way: "CacheSim_init 16 4 64 30 2 = Inr four_way_fresh"
  by code_simp

lemma init_main: "CacheSim_init 16 1 16384 30 2 = Inr main_fresh"
  by code_simp

subsection \<open>C1: the priority update\<close>

text \<open>
  Claim C1 says that a probe increments exactly the priorities \<open>p\<close> of the set
  with \<open>p \<le> p0\<close> and \<open>p < associativity\<close>, \<open>p0\<close> being the priority of the touched
  line before the update, leaves every other priority unchanged, and sets the
  touched line's priority to 0. The source updates the priorities in place and
  reads \<open>local_priority[index]\<close> anew for every line (lines 223 to 230): once the
  touched line itself has been incremented, the lines behind it are compared
  with \<open>p0 + 1\<close> (lemma \<open>probe_set_priority\<close> gives the update in general). In
  the two-way cache, after reads of 0x0 and 0x20 the lines of set 0 have
  priorities 0 and 1; a second read of 0x20 hits line 0 (\<open>p0 = 0\<close>), and
  line 1, whose priority 1 is greater than \<open>p0\<close>, goes to 2, a value outside
  the range 0 to \<open>associativity - 1\<close> that the comment at line 222 gives. In
  the four-way cache, after reads of 0x0, 0x10, 0x20, 0x30, 0x30 and 0x0 the
  lines of 0x20 and 0x10 both have priority 3, and a read of 0x40 evicts the
  line of 0x20 (tag 2) although 0x10 (tag 1) was used less recently.
\<close>

theorem priority_update_ages_line_behind_touched:
  "CacheSim_init 16 2 64 30 2 = Inr two_way_fresh \<and>
   run two_way_fresh [(False, 0x0, 1), (False, 0x20, 1)] =
     Inr (two_way_fresh\<lparr> tags := [1, 0, 0, 0], valid := [True, True, False, False],
            priority := [0, 1, 0, 0],
            m_mem_accesses := 2, m_misses := 2, m_instructions := 2 \<rparr>) \<and>
   probe (two_way_fresh\<lparr> tags := [1, 0, 0, 0], valid := [True, True, False, False],
            priority := [0, 1, 0, 0],
            m_mem_accesses := 2, m_misses := 2, m_instructions := 2 \<rparr>) False 0x20 =
     Inr (two_way_fresh\<lparr> tags := [1, 0, 0, 0], valid := [True, True, False, False],
            priority := [0, 2, 0, 0],
            m_mem_accesses := 2, m_misses := 2, m_instructions := 2 \<rparr>, True, False) \<and>
   CacheSim_init 16 4 64 30 2 = Inr four_way_fresh \<and>
   run four_way_fresh [(False, 0x0, 1), (False, 0x10, 1), (False, 0x20, 1), (False, 0x30, 1),
                       (False, 0x30, 1), (False, 0x0, 1)] =
     Inr (four_way_fresh\<lparr> tags := [3, 2, 1, 0], valid := [True, True, True, True],
            priority := [1, 3, 3, 0],
            m_mem_accesses := 6, m_misses := 4, m_instructions := 6 \<rparr>) \<and>
   probe (four_way_fresh\<lparr> tags := [3, 2, 1, 0], valid := [True, True, True, True],
            priority := [1, 3, 3, 0],
            m_mem_accesses := 6, m_misses := 4, m_instructions := 6 \<rparr>) False 0x40 =
     Inr (four_way_fresh\<lparr> tags := [3, 4, 1, 0], valid := [True, True, True, True],
            priority := [2, 0, 4, 1],
            m_mem_accesses := 6, m_misses := 4, m_instructions := 6 \<rparr>, False, False)"
  by (intro conjI) code_simp+

subsection \<open>C2: the trace of the specification\<close>

text \<open>
  Claim C2. With block size 16, associativity 1, capacity 16384, miss penalty 30
  and dirty-writeback penalty 2, starting from the fresh cache, read probes of
  0x0, 0x1, 0x4000 and 0x0 return hit = false, true, false, false (none with a
  dirty writeback), and the run over these four accesses with one instruction
  each ends with 3 misses and 4 accesses.
\<close>

theorem main_trace_scenario:
  "CacheSim_init 16 1 16384 30 2 = Inr main_fresh \<and>
   probe main_fresh False 0x0 =
     Inr (main_fresh\<lparr> valid := True # replicate 1023 False \<rparr>, False, False) \<and>
   probe (main_fresh\<lparr> valid := True # replicate 1023 False \<rparr>) False 0x1 =
     Inr (main_fresh\<lparr> valid := True # replicate 1023 False \<rparr>, True, False) \<and>
   probe (main_fresh\<lparr> valid := True # replicate 1023 False \<rparr>) False 0x4000 =
     Inr (main_fresh\<lparr> tags := 1 # replicate 1023 0, valid := True # replicate 1023 False \<rparr>,
          False, False) \<and>
   probe (main_fresh\<lparr> tags := 1 # replicate 1023 0, valid := True # replicate 1023 False \<rparr>)
       False 0x0 =
     Inr (main_fresh\<lparr> valid := True # replicate 1023 False \<rparr>, False, False) \<and>
   run main_fresh [(False, 0x0, 1), (False, 0x1, 1), (False, 0x4000, 1), (False, 0x0, 1)] =
     Inr (main_fresh\<lparr> valid := True # replicate 1023 False,
            m_mem_accesses := 4, m_misses := 3, m_instructions := 4 \<rparr>)"
proof (intro conjI)
  show "CacheSim_init 16 1 16384 30 2 = Inr main_fresh" by (rule init_main)
  show "probe main_fresh False 0x0 =
     Inr (main_fresh\<lparr> valid := True # replicate 1023 False \<rparr>, False, False)"
    by code_simp
  show "probe (main_fresh\<lparr> valid := True # replicate 1023 False \<rparr>) False 0x1 =
     Inr (main_fresh\<lparr> valid := True # replicate 1023 False \<rparr>, True, False)"
    by code_simp
  show "probe (main_fresh\<lparr> valid := True # replicate 1023 False \<rparr>) False 0x4000 =
     Inr (main_fresh\<lparr> tags := 1 # replicate 1023 0, valid := True # replicate 1023 False \<rparr>,
          False, False)"
    by code_simp
  show "probe (main_fresh\<lparr> tags := 1 # replicate 1023 0, valid := True # replicate 1023 False \<rparr>)
       False 0x0 =
     Inr (main_fresh\<lparr> valid := True # replicate 1023 False \<rparr>, False, False)"
    by code_simp
  show "run main_fresh [(False, 0x0, 1), (False, 0x1, 1), (False, 0x4000, 1), (False, 0x0, 1)] =
     Inr (main_fresh\<lparr> valid := True # replicate 1023 False,
            m_mem_accesses := 4, m_misses := 3, m_instructions := 4 \<rparr>)"
    by code_simp
qed

subsection \<open>C3: replacement on a miss\<close>

text \<open>
  Claim C3. For a probe that misses, in a set of at most 2^31 lines (every
  power of two that an \<open>unsigned\<close> associativity can hold; the positions then
  fit the \<open>int\<close> variables the source keeps them in): if the set has an invalid
  line, then for one invalid position \<open>k\<close> the line is made valid, and no dirty
  writeback is reported; otherwise \<open>k\<close> is the first position of the greatest
  priority (no position has a greater one, all positions before it have a
  smaller one), the valid flags are unchanged, and a dirty writeback is reported
  iff line \<open>k\<close> was dirty. In both cases the tag at \<open>k\<close> becomes the probed tag
  and the dirty flag at \<open>k\<close> becomes the access kind (write = true); no other
  tag, valid flag or dirty flag of the set changes.
\<close>

theorem probe_miss_replacement:
  assumes "probe s type address = Inr (s', False, dirty_wb)"
    and "unat (associativity s) \<le> 2 ^ 31"
  shows "if \<exists>i<unat (associativity s). \<not> local_valid (get_cache_set s (set_base s address)) ! i
     then \<exists>k<unat (associativity s).
            \<not> local_valid (get_cache_set s (set_base s address)) ! k \<and>
            local_valid (get_cache_set s' (set_base s address)) =
              (local_valid (get_cache_set s (set_base s address)))[k := True] \<and>
            local_tags (get_cache_set s' (set_base s address)) =
              (local_tags (get_cache_set s (set_base s address)))[k := get_tag s address] \<and>
            local_dirty (get_cache_set s' (set_base s address)) =
              (local_dirty (get_cache_set s (set_base s address)))[k := type] \<and>
            \<not> dirty_wb
     else \<exists>k<unat (associativity s).
            (\<forall>j<unat (associativity s).
               sint (local_priority (get_cache_set s (set_base s address)) ! j)
                 \<le> sint (local_priority (get_cache_set s (set_base s address)) ! k)) \<and>
            (\<forall>j<k. sint (local_priority (get_cache_set s (set_base s address)) ! j)
                 < sint (local_priority (get_cache_set s (set_base s address)) ! k)) \<and>
            local_valid (get_cache_set s' (set_base s address)) =
              local_valid (get_cache_set s (set_base s address)) \<and>
            local_tags (get_cache_set s' (set_base s address)) =
              (local_tags (get_cache_set s (set_base s address)))[k := get_tag s address] \<and>
            local_dirty (get_cache_set s' (set_base s address)) =
              (local_dirty (get_cache_set s (set_base s address)))[k := type] \<and>
            dirty_wb = local_dirty (get_cache_set s (set_base s address)) ! k"
  using probe_get_cache_set(1,2) [OF assms(1)] assms(2)
  by (rule probe_set_miss_cases)

text \<open>
  Both cases in the two-way cache: a read of 0x0 in the fresh cache fills the
  last line of set 0; a read of 0x40 after a write of 0x0 and a read of 0x20
  evicts the dirty line of 0x0 at position 1 and reports the writeback.
\<close>

theorem probe_miss_replacement_witness:
  "probe two_way_fresh False 0x0 =
     Inr (two_way_fresh\<lparr> valid := [False, True, False, False], priority := [1, 0, 0, 0] \<rparr>,
          False, False) \<and>
   probe (two_way_fresh\<lparr> tags := [1, 0, 0, 0], dirty := [False, True, False, False],
            valid := [True, True, False, False], priority := [0, 1, 0, 0] \<rparr>) False 0x40 =
     Inr (two_way_fresh\<lparr> tags := [1, 2, 0, 0], dirty := [False, False, False, False],
            valid := [True, True, False, False], priority := [1, 0, 0, 0] \<rparr>, False, True) \<and>
   unat (associativity two_way_fresh) \<le> 2 ^ 31 \<and>
   local_dirty (get_cache_set (two_way_fresh\<lparr> tags := [1, 0, 0, 0],
      dirty := [False, True, False, False], valid := [True, True, False, False],
      priority := [0, 1, 0, 0] \<rparr>) 0) ! 1"
proof -
  have h1: "probe two_way_fresh False 0x0 =
     Inr (two_way_fresh\<lparr> valid := [False, True, False, False], priority := [1, 0, 0, 0] \<rparr>,
          False, False)"
    by code_simp
  have h2: "probe (two_way_fresh\<lparr> tags := [1, 0, 0, 0], dirty := [False, True, False, False],
            valid := [True, True, False, False], priority := [0, 1, 0, 0] \<rparr>) False 0x40 =
     Inr (two_way_fresh\<lparr> tags := [1, 2, 0, 0], dirty := [False, False, False, False],
            valid := [True, True, False, False], priority := [1, 0, 0, 0] \<rparr>, False, True)"
    by code_simp
  have a1: "unat (associativity two_way_fresh) \<le> 2 ^ 31" by (simp add: two_way_fresh_def)
  have a2: "unat (associativity (two_way_fresh\<lparr> tags := [1, 0, 0, 0],
      dirty := [False, True, False, False], valid := [True, True, False, False],
      priority := [0, 1, 0, 0] \<rparr>)) \<le> 2 ^ 31" by (simp add: two_way_fresh_def)
  have d: "local_dirty (get_cache_set (two_way_fresh\<lparr> tags := [1, 0, 0, 0],
      dirty := [False, True, False, False], valid := [True, True, False, False],
      priority := [0, 1, 0, 0] \<rparr>) 0) ! 1"
    by code_simp
  from probe_miss_replacement [OF h1 a1] probe_miss_replacement [OF h2 a2] h1 h2 a1 d
  show ?thesis by simp
qed

subsection \<open>C4: the decoder recomposes the address\<close>

text \<open>
  Claim C4. For a cache constructed with block size \<open>2 ^ k\<close> and set count
  \<open>capacity / (block_size * associativity) = 2 ^ m\<close>, the offset of the set bits
  is \<open>k\<close>, the offset of the tag bits is \<open>k + m\<close>, \<open>get_set\<close> is the address
  shifted right by \<open>k\<close> and masked with the set count minus 1, \<open>get_tag\<close> is the
  address shifted right by \<open>k + m\<close>, and for every 64-bit address the tag
  shifted left by \<open>k + m\<close>, the set index shifted left by \<open>k\<close> and the address
  masked with block size minus 1 give the address back when or-ed together.
\<close>

theorem decoder_recomposes_address:
  assumes "CacheSim_init bs a c mp wbp = Inr s"
    and "bs = 2 ^ k" and "k < 32" and "c div (bs * a) = 2 ^ m" and "m < 32"
  shows "unat (set_offset s) = k \<and> unat (tag_offset s) = k + m \<and>
         get_set s address = ucast (drop_bit k address AND ucast (c div (bs * a) - 1)) \<and>
         get_tag s address = drop_bit (k + m) address \<and>
         push_bit (k + m) (get_tag s address) OR push_bit k (scast (get_set s address)) OR
           (address AND ucast (block_size s - 1)) = address"
proof -
  note f = init_pow2_fields [OF assms]
  have sm: "set_mask s = c div (bs * a) - 1"
    using assms(1) by (auto simp: CacheSim_init_def Let_def split: if_splits)
  have gs: "get_set s address = ucast (drop_bit k address AND ucast (mask m :: u32))"
    by (simp add: get_set_def Let_def f)
  have gt: "get_tag s address = drop_bit (k + m) address"
    by (simp add: get_tag_def f)
  have bm: "block_size s - 1 = mask k" by (simp add: f(1) mask_eq_decr_exp)
  have "push_bit (k + m) (drop_bit (k + m) address) OR
        push_bit k (scast (ucast (drop_bit k address AND ucast (mask m :: u32)) :: u32) :: u64) OR
        (address AND ucast (mask k :: u32)) = address"
  proof (rule bit_word_eqI)
    fix n assume "n < LENGTH(64)"
    then have n: "n < 64" by simp
    show "bit (push_bit (k + m) (drop_bit (k + m) address) OR
        push_bit k (scast (ucast (drop_bit k address AND ucast (mask m :: u32)) :: u32) :: u64) OR
        (address AND ucast (mask k :: u32))) n = bit address n"
    proof -
      consider "n < k" | "k \<le> n" "n < k + m" | "k + m \<le> n" by linarith
      then show ?thesis
      proof cases
        case 1
        with n assms(3) show ?thesis
          by (simp add: bit_simps bit_word_scast_iff bit_word_ucast_iff)
      next
        case 2
        then have "n - k < m" "k + (n - k) = n" by simp_all
        moreover from this assms(5) have "n - k < 32" "min 31 (n - k) = n - k" by simp_all
        ultimately show ?thesis using 2 n assms(3,5)
          by (auto simp: bit_simps bit_word_scast_iff bit_word_ucast_iff)
      next
        case 3
        then have "k + m + (n - (k + m)) = n" by simp
        with 3 n assms(5) show ?thesis
          by (auto simp: bit_simps bit_word_scast_iff bit_word_ucast_iff)
      qed
    qed
  qed
  with gs gt bm sm f(2,3,4) show ?thesis by simp
qed

theorem decoder_witness:
  "CacheSim_init 16 1 16384 30 2 = Inr main_fresh \<and> (16 :: u32) = 2 ^ 4 \<and>
   (16384 :: u32) div (16 * 1) = 2 ^ 10 \<and>
   get_set main_fresh 0xDEADBEEF = 0x3EE \<and> get_tag main_fresh 0xDEADBEEF = 0x37AB6 \<and>
   push_bit (4 + 10) (get_tag main_fresh 0xDEADBEEF) OR
     push_bit 4 (scast (get_set main_fresh 0xDEADBEEF)) OR
     (0xDEADBEEF AND ucast (block_size main_fresh - 1)) = 0xDEADBEEF"
proof -
  have b: "(16 :: u32) = 2 ^ 4" by simp
  have s: "(16384 :: u32) div (16 * 1) = 2 ^ 10" by simp
  have k: "(4 :: nat) < 32" and m: "(10 :: nat) < 32" by simp_all
  have g1: "get_set main_fresh 0xDEADBEEF = 0x3EE" by code_simp
  have g2: "get_tag main_fresh 0xDEADBEEF = 0x37AB6" by code_simp
  note d = decoder_recomposes_address [where address = "0xDEADBEEF", OF init_main b k s m]
  from d have r: "push_bit (4 + 10) (get_tag main_fresh 0xDEADBEEF) OR
     push_bit 4 (scast (get_set main_fresh 0xDEADBEEF)) OR
     (0xDEADBEEF AND ucast (block_size main_fresh - 1)) = 0xDEADBEEF"
    by (rule conjunct2 [THEN conjunct2, THEN conjunct2, THEN conjunct2])
  show ?thesis
    by (intro conjI) (rule init_main b s g1 g2 r)+
qed

subsection \<open>C5: the first of \<open>A + 1\<close> addresses is the one evicted\<close>

text \<open>
  Claim C5. Take a constructed cache of associativity \<open>A\<close> (below 2^31, so that
  the \<open>int\<close> priorities hold the ranks 0 to \<open>A\<close>) whose geometry is in range: block
  size times associativity does not overflow 32 bits and the set count is not
  zero, as in every valid power-of-two configuration. Let \<open>A + 1\<close> accesses with
  pairwise distinct tags map to one set. Then the run from the fresh cache
  succeeds; after the first \<open>A\<close> accesses all their addresses are resident; the
  last probe misses; and after it the first address is not resident while the
  other \<open>A\<close> addresses are: the line of the first address, and no other, was
  evicted.
\<close>

theorem lru_evicts_first_of_full_set:
  assumes init: "CacheSim_init bs a c mp wbp = Inr s0"
    and nov: "unat bs * unat a < 2 ^ 32" and sets: "c div (bs * a) \<noteq> 0"
    and small: "unat a < 2 ^ 31"
    and len: "length accs = unat a + 1"
    and dist: "distinct (map (\<lambda>x. get_tag s0 (fst (snd x))) accs)"
    and same: "\<forall>x\<in>set accs. get_set s0 (fst (snd x)) = st"
  shows "\<exists>sp s' d sf.
     run s0 (butlast accs) = Inr sp \<and>
     (\<forall>x\<in>set (butlast accs). resident sp (fst (snd x))) \<and>
     probe sp (fst (last accs)) (fst (snd (last accs))) = Inr (s', False, d) \<and>
     run s0 accs = Inr sf \<and>
     sf = update_stats s' (snd (snd (last accs))) (fst (last accs)) False d \<and>
     \<not> resident sf (fst (snd (hd accs))) \<and>
     (\<forall>x\<in>set (tl accs). resident sf (fst (snd x)))"
proof -
  let ?n = "unat a"
  let ?tag = "\<lambda>x. get_tag s0 (fst (snd x))"
  note f = init_fields [OF init]
  have a0: "a \<noteq> 0" using f(2) by auto
  then have n0: "0 < ?n" by (simp add: unat_gt_0)
  have ne: "accs \<noteq> []" using len by auto
  let ?front = "butlast accs" and ?lst = "last accs"
  have split: "accs = ?front @ [?lst]" using ne by simp
  have lf: "length ?front = ?n" using len by simp
  have fne: "?front \<noteq> []" using lf n0 by (metis list.size(3) less_irrefl)
  obtain ty ad ins where lst: "?lst = (ty, ad, ins)" by (cases ?lst) auto
  let ?b = "unat (st * a)"
  have base: "set_base s0 (fst (snd x)) = ?b" if "x \<in> set accs" for x
    using same that by (simp add: set_base_def f(4))
  have hd_in: "hd accs \<in> set accs" using ne by simp
  have ib0: "in_bounds s0 ?b"
    using init_in_bounds [OF init nov sets, of "fst (snd (hd accs))"] base [OF hd_in] by simp
  have fl0: "filled ?n [] (get_cache_set s0 ?b)" by (rule init_filled [OF init ib0])
  have as0: "unat (associativity s0) = ?n" by (simp add: f(4))
  let ?ts = "map ?tag ?front"
  have dts: "distinct ?ts" and tl: "?tag ?lst \<notin> set ?ts"
    using dist by (subst (asm) split, simp)+
  have "\<exists>sp. run s0 ?front = Inr sp \<and> same_geometry s0 sp \<and> in_bounds sp ?b \<and>
           filled ?n ([] @ ?ts) (get_cache_set sp ?b)"
  proof (rule run_fills [OF ib0 fl0 as0 small])
    show "length [] + length ?front \<le> ?n" using lf by simp
    show "distinct ([] @ ?ts)" using dts by simp
    show "\<forall>x\<in>set ?front. set_base s0 (fst (snd x)) = ?b"
      using base by (auto dest: in_set_butlastD)
  qed
  then obtain sp where rp: "run s0 ?front = Inr sp" and gp: "same_geometry s0 sp"
    and ibp: "in_bounds sp ?b" and flp: "filled ?n ?ts (get_cache_set sp ?b)"
    by auto
  let ?ls = "get_cache_set sp ?b"
  note dp = same_geometry_decode [OF gp]
  have lts: "length ?ts = ?n" using lf by simp
  from flp lts have slp: "set_lengths ?n ?ls"
    and vp: "\<And>i. i < ?n \<Longrightarrow> local_valid ?ls ! i"
    and tp: "\<And>i. i < ?n \<Longrightarrow> local_tags ?ls ! i = ?ts ! (?n - 1 - i)"
    by (simp_all add: filled_def)
  have asp: "associativity sp = a" using gp f(4) by (simp add: same_geometry_def)
  \<comment> \<open>before the last probe every earlier address is resident\<close>
  have res_before: "resident sp (fst (snd x))" if "x \<in> set ?front" for x
  proof -
    from that obtain i where i: "i < ?n" "?front ! i = x" using lf by (metis in_set_conv_nth)
    have xb: "set_base sp (fst (snd x)) = ?b"
      using base [of x] that dp(3) by (auto dest: in_set_butlastD)
    let ?k = "?n - 1 - i"
    have k: "?k < ?n" using i(1) by simp
    have "local_tags ?ls ! ?k = ?ts ! i" using tp [OF k] i(1) by simp
    also have "\<dots> = get_tag sp (fst (snd x))" using i lf by (simp add: dp(1))
    finally have "local_valid ?ls ! ?k \<and> local_tags ?ls ! ?k = get_tag sp (fst (snd x))"
      using vp [OF k] by simp
    with k show ?thesis unfolding resident_iff [OF xb slp] by blast
  qed
  \<comment> \<open>the last probe\<close>
  have lst_in: "?lst \<in> set accs" using ne by simp
  have lb: "set_base sp ad = ?b" using base [OF lst_in] dp(3) by (simp add: lst)
  have tl': "get_tag sp ad \<notin> set ?ts" using tl by (simp add: lst dp(1))
  from filled_evict [OF flp lts tl' n0 small, of "associativity sp" ty]
  obtain ls' d where ps: "probe_set (associativity sp) ty (get_tag sp ad) ?ls = Inr (ls', False, d)"
    and sl': "set_lengths ?n ls'" and v': "local_valid ls' = local_valid ?ls"
    and t': "local_tags ls' = (local_tags ?ls)[?n - 1 := get_tag sp ad]"
    by blast
  from probe_lift [OF ibp lb ps]
  obtain s' where p: "probe sp ty ad = Inr (s', False, d)" and g': "same_geometry sp s'"
    and gc: "get_cache_set s' ?b = ls'" by blast
  let ?sf = "update_stats s' ins ty False d"
  have rf: "run s0 accs = Inr ?sf"
    by (subst split) (simp add: run_append rp lst p)
  have gf: "same_geometry s0 ?sf" using same_geometry_trans [OF gp g'] by simp
  note df = same_geometry_decode [OF gf]
  have cf: "get_cache_set ?sf ?b = ls'" using gc by simp
  have slf: "set_lengths ?n (get_cache_set ?sf ?b)" using sl' cf by simp
  have lenl: "length (local_tags ?ls) = ?n" using slp by (simp add: set_lengths_def)
  have tf: "local_tags ls' ! k = (if k = ?n - 1 then ?tag ?lst else ?ts ! (?n - 1 - k))"
    if "k < ?n" for k
    using that tp [OF that] lenl by (simp add: t' nth_list_update lst dp(1))
  have vf: "local_valid ls' ! k" if "k < ?n" for k using vp [OF that] v' by simp
  have res_after: "resident ?sf (fst (snd x))" if "x \<in> set (tl accs)" for x
  proof -
    have "x \<in> set accs" using that ne by (auto dest: list.set_sel(2))
    then have xb: "set_base ?sf (fst (snd x)) = ?b" using base df(3) by simp
    have "tl accs = tl ?front @ [?lst]" using fne by (subst split) simp
    with that consider "x = ?lst" | "x \<in> set (tl ?front)" by auto
    then have "\<exists>k<?n. local_tags ls' ! k = ?tag x"
    proof cases
      case 1
      have "?n - 1 < ?n" using n0 by simp
      with tf [OF this] 1 show ?thesis by auto
    next
      case 2
      then obtain i where i: "i < length (tl ?front)" "tl ?front ! i = x"
        by (metis in_set_conv_nth)
      then have i1: "Suc i < ?n" using lf by simp
      have xi: "?front ! Suc i = x" using i fne by (simp add: nth_tl)
      let ?k = "?n - 1 - Suc i"
      have k: "?k < ?n" "?k \<noteq> ?n - 1" "?n - 1 - ?k = Suc i" using i1 by simp_all
      have "local_tags ls' ! ?k = ?ts ! Suc i" using tf [OF k(1)] k(2,3) by simp
      also have "\<dots> = ?tag x" using i1 lf xi by simp
      finally show ?thesis using k(1) by blast
    qed
    then obtain k where "k < ?n" "local_tags ls' ! k = ?tag x" by blast
    with vf [of k] have "\<exists>k<?n. local_valid (get_cache_set ?sf ?b) ! k \<and>
        local_tags (get_cache_set ?sf ?b) ! k = get_tag ?sf (fst (snd x))"
      unfolding cf df(1) by blast
    then show ?thesis unfolding resident_iff [OF xb slf] .
  qed
  have not_res: "\<not> resident ?sf (fst (snd (hd accs)))"
  proof -
    have xb: "set_base ?sf (fst (snd (hd accs))) = ?b" using base [OF hd_in] df(3) by simp
    have h0: "?tag (hd accs) = ?ts ! 0"
      using fne lf n0 by (subst split) (simp add: hd_append hd_conv_nth)
    have "local_tags ls' ! k \<noteq> ?ts ! 0" if "k < ?n" for k
    proof (cases "k = ?n - 1")
      case True
      have "?ts ! 0 \<in> set ?ts" using lts n0 by (metis nth_mem)
      with tl have "?tag ?lst \<noteq> ?ts ! 0" by metis
      moreover have "local_tags ls' ! k = ?tag ?lst" using tf [OF that] True by simp
      ultimately show ?thesis by (simp only:) simp
    next
      case False
      then have "?n - 1 - k \<noteq> 0" "?n - 1 - k < length ?ts" using that lts by simp_all
      moreover have "0 < length ?ts" using lts n0 by (simp only:)
      ultimately have "?ts ! (?n - 1 - k) \<noteq> ?ts ! 0"
        using dts by (metis nth_eq_iff_index_eq)
      with tf [OF that] False show ?thesis by simp
    qed
    then have "\<not> (\<exists>k<?n. local_valid (get_cache_set ?sf ?b) ! k \<and>
        local_tags (get_cache_set ?sf ?b) ! k = get_tag ?sf (fst (snd (hd accs))))"
      unfolding cf df(1) h0 by blast
    then show ?thesis unfolding resident_iff [OF xb slf] .
  qed
  have "run s0 ?front = Inr sp \<and>
     (\<forall>x\<in>set ?front. resident sp (fst (snd x))) \<and>
     probe sp (fst ?lst) (fst (snd ?lst)) = Inr (s', False, d) \<and>
     run s0 accs = Inr ?sf \<and>
     ?sf = update_stats s' (snd (snd ?lst)) (fst ?lst) False d \<and>
     \<not> resident ?sf (fst (snd (hd accs))) \<and>
     (\<forall>x\<in>set (tl accs). resident ?sf (fst (snd x)))"
    using rp res_before p rf not_res res_after by (simp add: lst)
  then show ?thesis by blast
qed

theorem lru_witness:
  "CacheSim_init 16 2 64 30 2 = Inr two_way_fresh \<and>
   distinct (map (\<lambda>x. get_tag two_way_fresh (fst (snd x)))
      [(True, 0x0, 1), (False, 0x20, 1), (False, 0x40, 1)]) \<and>
   get_set two_way_fresh 0x0 = 0 \<and> get_set two_way_fresh 0x20 = 0 \<and>
   get_set two_way_fresh 0x40 = 0 \<and>
   run two_way_fresh [(True, 0x0, 1), (False, 0x20, 1)] =
     Inr (two_way_fresh\<lparr> tags := [1, 0, 0, 0], dirty := [False, True, False, False],
            valid := [True, True, False, False], priority := [0, 1, 0, 0],
            m_writes := 1, m_mem_accesses := 2, m_misses := 2, m_instructions := 2 \<rparr>) \<and>
   run two_way_fresh [(True, 0x0, 1), (False, 0x20, 1), (False, 0x40, 1)] =
     Inr (two_way_fresh\<lparr> tags := [1, 2, 0, 0], dirty := [False, False, False, False],
            valid := [True, True, False, False], priority := [1, 0, 0, 0],
            m_writes := 1, m_mem_accesses := 3, m_misses := 3, m_dirty_wb := 1,
            m_instructions := 3 \<rparr>) \<and>
   \<not> resident (two_way_fresh\<lparr> tags := [1, 2, 0, 0], dirty := [False, False, False, False],
            valid := [True, True, False, False], priority := [1, 0, 0, 0],
            m_writes := 1, m_mem_accesses := 3, m_misses := 3, m_dirty_wb := 1,
            m_instructions := 3 \<rparr>) 0x0 \<and>
   resident (two_way_fresh\<lparr> tags := [1, 2, 0, 0], dirty := [False, False, False, False],
            valid := [True, True, False, False], priority := [1, 0, 0, 0],
            m_writes := 1, m_mem_accesses := 3, m_misses := 3, m_dirty_wb := 1,
            m_instructions := 3 \<rparr>) 0x20 \<and>
   resident (two_way_fresh\<lparr> tags := [1, 2, 0, 0], dirty := [False, False, False, False],
            valid := [True, True, False, False], priority := [1, 0, 0, 0],
            m_writes := 1, m_mem_accesses := 3, m_misses := 3, m_dirty_wb := 1,
            m_instructions := 3 \<rparr>) 0x40"
proof -
  let ?accs = "[(True, 0x0, 1), (False, 0x20, 1), (False, 0x40, 1)] :: access list"
  have nov: "unat (16 :: u32) * unat (2 :: u32) < 2 ^ 32" by simp
  have sets: "(64 :: u32) div (16 * 2) \<noteq> 0" by simp
  have small: "unat (2 :: u32) < 2 ^ 31" by simp
  have len: "length ?accs = unat (2 :: u32) + 1" by simp
  have dist: "distinct (map (\<lambda>x. get_tag two_way_fresh (fst (snd x))) ?accs)" by code_simp
  have g: "get_set two_way_fresh 0x0 = 0" "get_set two_way_fresh 0x20 = 0"
    "get_set two_way_fresh 0x40 = 0" by code_simp+
  then have same: "\<forall>x\<in>set ?accs. get_set two_way_fresh (fst (snd x)) = 0" by simp
  note w = lru_evicts_first_of_full_set [OF init_two_way nov sets small len dist same]
  have r2: "run two_way_fresh [(True, 0x0, 1), (False, 0x20, 1)] =
     Inr (two_way_fresh\<lparr> tags := [1, 0, 0, 0], dirty := [False, True, False, False],
            valid := [True, True, False, False], priority := [0, 1, 0, 0],
            m_writes := 1, m_mem_accesses := 2, m_misses := 2, m_instructions := 2 \<rparr>)"
    by code_simp
  have r3: "run two_way_fresh ?accs =
     Inr (two_way_fresh\<lparr> tags := [1, 2, 0, 0], dirty := [False, False, False, False],
            valid := [True, True, False, False], priority := [1, 0, 0, 0],
            m_writes := 1, m_mem_accesses := 3, m_misses := 3, m_dirty_wb := 1,
            m_instructions := 3 \<rparr>)"
    by code_simp
  from w r3 have res: "\<not> resident (two_way_fresh\<lparr> tags := [1, 2, 0, 0], dirty := [False, False, False, False],
            valid := [True, True, False, False], priority := [1, 0, 0, 0],
            m_writes := 1, m_mem_accesses := 3, m_misses := 3, m_dirty_wb := 1,
            m_instructions := 3 \<rparr>) 0x0 \<and>
   resident (two_way_fresh\<lparr> tags := [1, 2, 0, 0], dirty := [False, False, False, False],
            valid := [True, True, False, False], priority := [1, 0, 0, 0],
            m_writes := 1, m_mem_accesses := 3, m_misses := 3, m_dirty_wb := 1,
            m_instructions := 3 \<rparr>) 0x20 \<and>
   resident (two_way_fresh\<lparr> tags := [1, 2, 0, 0], dirty := [False, False, False, False],
            valid := [True, True, False, False], priority := [1, 0, 0, 0],
            m_writes := 1, m_mem_accesses := 3, m_misses := 3, m_dirty_wb := 1,
            m_instructions := 3 \<rparr>) 0x40"
    by auto
  show ?thesis using init_two_way dist g r2 r3 res by simp
qed

subsection \<open>C6: the statistics after an access\<close>

text \<open>
  Claim C6. \<open>update_stats\<close> adds 1 to the access counter, 1 to the write counter
  iff the access is a write, 1 to the miss counter iff the probe did not hit and
  the (sign-extended) instruction count to the instruction counter, and it
  overwrites the dirty-writeback field with the flag of this access. In \<open>run\<close>
  the last access of a trace is counted in this way on top of the counters left
  by the accesses before it, with the flags its probe returned; so at the end of
  a run the dirty-writeback field holds the flag of the final access only.
  All counters are 64-bit and wrap around.
\<close>

theorem update_stats_counters:
  "m_mem_accesses (update_stats s instructions type hit dirty_wb) = m_mem_accesses s + 1 \<and>
   m_writes (update_stats s instructions type hit dirty_wb) = m_writes s + (if type then 1 else 0) \<and>
   m_misses (update_stats s instructions type hit dirty_wb) = m_misses s + (if hit then 0 else 1) \<and>
   m_instructions (update_stats s instructions type hit dirty_wb) =
     m_instructions s + scast instructions \<and>
   m_dirty_wb (update_stats s instructions type hit dirty_wb) = (if dirty_wb then 1 else 0) \<and>
   (\<forall>sf. run s (accs @ [(type, address, instructions)]) = Inr sf \<longrightarrow>
      (\<exists>sp s' h d. run s accs = Inr sp \<and> probe sp type address = Inr (s', h, d) \<and>
         sf = update_stats s' instructions type h d \<and>
         m_mem_accesses sf = m_mem_accesses sp + 1 \<and>
         m_writes sf = m_writes sp + (if type then 1 else 0) \<and>
         m_misses sf = m_misses sp + (if h then 0 else 1) \<and>
         m_instructions sf = m_instructions sp + scast instructions \<and>
         m_dirty_wb sf = (if d then 1 else 0)))"
proof -
  have run_last: "\<exists>sp s' h d. run s accs = Inr sp \<and> probe sp type address = Inr (s', h, d) \<and>
         sf = update_stats s' instructions type h d \<and>
         m_mem_accesses sf = m_mem_accesses sp + 1 \<and>
         m_writes sf = m_writes sp + (if type then 1 else 0) \<and>
         m_misses sf = m_misses sp + (if h then 0 else 1) \<and>
         m_instructions sf = m_instructions sp + scast instructions \<and>
         m_dirty_wb sf = (if d then 1 else 0)"
    if r: "run s (accs @ [(type, address, instructions)]) = Inr sf" for sf
  proof -
    from r obtain sp where sp: "run s accs = Inr sp"
      and r1: "run sp [(type, address, instructions)] = Inr sf"
      by (auto simp: run_append split: sum.splits)
    from r1 obtain s' h d where p: "probe sp type address = Inr (s', h, d)"
      and sf: "sf = update_stats s' instructions type h d"
      by (auto split: sum.splits)
    from probe_frame_aux [OF p] have
      "m_writes s' = m_writes sp" "m_mem_accesses s' = m_mem_accesses sp"
      "m_misses s' = m_misses sp" "m_instructions s' = m_instructions sp"
      by simp_all
    then have "m_mem_accesses sf = m_mem_accesses sp + 1 \<and>
         m_writes sf = m_writes sp + (if type then 1 else 0) \<and>
         m_misses sf = m_misses sp + (if h then 0 else 1) \<and>
         m_instructions sf = m_instructions sp + scast instructions \<and>
         m_dirty_wb sf = (if d then 1 else 0)"
      by (simp add: sf update_stats_def bool_to_i64_def)
    with sp p sf show ?thesis by blast
  qed
  then show ?thesis by (simp add: update_stats_def bool_to_i64_def)
qed

text \<open>
  In the two-way cache a write to 0x0 and reads of 0x20 and 0x40 (all in set 0)
  end with the eviction of the dirty line of 0x0: the field is 1. A further read
  of 0x60 evicts the clean line of 0x20, and the field is 0 at the end of the
  run although a dirty line was written back during it.
\<close>

theorem update_stats_counters_witness:
  "run two_way_fresh [(True, 0x0, 1), (False, 0x20, 1), (False, 0x40, 1)] =
     Inr (two_way_fresh\<lparr> tags := [1, 2, 0, 0], dirty := [False, False, False, False],
            valid := [True, True, False, False], priority := [1, 0, 0, 0],
            m_writes := 1, m_mem_accesses := 3, m_misses := 3, m_dirty_wb := 1,
            m_instructions := 3 \<rparr>) \<and>
   run two_way_fresh ([(True, 0x0, 1), (False, 0x20, 1), (False, 0x40, 1)] @ [(False, 0x60, 1)]) =
     Inr (two_way_fresh\<lparr> tags := [3, 2, 0, 0], dirty := [False, False, False, False],
            valid := [True, True, False, False], priority := [0, 1, 0, 0],
            m_writes := 1, m_mem_accesses := 4, m_misses := 4, m_dirty_wb := 0,
            m_instructions := 4 \<rparr>)"
proof -
  have h1: "run two_way_fresh [(True, 0x0, 1), (False, 0x20, 1), (False, 0x40, 1)] =
     Inr (two_way_fresh\<lparr> tags := [1, 2, 0, 0], dirty := [False, False, False, False],
            valid := [True, True, False, False], priority := [1, 0, 0, 0],
            m_writes := 1, m_mem_accesses := 3, m_misses := 3, m_dirty_wb := 1,
            m_instructions := 3 \<rparr>)"
    by code_simp
  have h2: "run two_way_fresh ([(True, 0x0, 1), (False, 0x20, 1), (False, 0x40, 1)] @ [(False, 0x60, 1)]) =
     Inr (two_way_fresh\<lparr> tags := [3, 2, 0, 0], dirty := [False, False, False, False],
            valid := [True, True, False, False], priority := [0, 1, 0, 0],
            m_writes := 1, m_mem_accesses := 4, m_misses := 4, m_dirty_wb := 0,
            m_instructions := 4 \<rparr>)"
    by code_simp
  from update_stats_counters [of two_way_fresh 1 False False False
      "[(True, 0x0, 1), (False, 0x20, 1), (False, 0x40, 1)]" "0x60"] h1 h2
  show ?thesis by simp
qed

subsection \<open>C7: the report\<close>

text \<open>
  Claim C7. \<open>dump_stats\<close> computes \<open>cycles\<close> as miss penalty times misses plus
  dirty-writeback penalty times the dirty-writeback field plus instructions (in
  64-bit arithmetic), \<open>hits\<close> as accesses minus misses, and \<open>ipc\<close> as the quotient
  of instructions by cycles (the real quotient stands for the \<open>double\<close>; cycles
  not zero). With 3 misses, field 0, 4 instructions and miss penalty 30 that is
  94 cycles and an ipc of 4/94.
\<close>

theorem dump_stats_report:
  "cycles (dump_stats s) =
     ucast (miss_penalty s) * m_misses s + ucast (dirty_wb_penalty s) * m_dirty_wb s +
     m_instructions s \<and>
   hits (dump_stats s) = m_mem_accesses s - m_misses s \<and>
   (sint (cycles (dump_stats s)) \<noteq> 0 \<longrightarrow>
      ipc (dump_stats s) =
        Finite (real_of_int (sint (m_instructions s)) / real_of_int (sint (cycles (dump_stats s))))) \<and>
   (m_misses s = 3 \<and> m_dirty_wb s = 0 \<and> m_instructions s = 4 \<and> miss_penalty s = 30 \<longrightarrow>
      cycles (dump_stats s) = 94 \<and> ipc (dump_stats s) = Finite (4 / 94))"
  by (simp add: dump_stats_def Let_def double_div_def)

theorem dump_stats_report_witness:
  "m_misses (main_fresh\<lparr> m_mem_accesses := 4, m_misses := 3, m_instructions := 4 \<rparr>) = 3 \<and>
   miss_penalty (main_fresh\<lparr> m_mem_accesses := 4, m_misses := 3, m_instructions := 4 \<rparr>) = 30 \<and>
   dump_stats (main_fresh\<lparr> m_mem_accesses := 4, m_misses := 3, m_instructions := 4 \<rparr>) =
     \<lparr> miss_rate = Finite 75, hits = 1, cycles = 94, ipc = Finite (4 / 94) \<rparr>"
proof -
  have "miss_rate (dump_stats (main_fresh\<lparr> m_mem_accesses := 4, m_misses := 3, m_instructions := 4 \<rparr>)) =
      Finite 75"
    by (simp add: dump_stats_def main_fresh_def Let_def double_div_def double_times_def)
  with dump_stats_report [of "main_fresh\<lparr> m_mem_accesses := 4, m_misses := 3, m_instructions := 4 \<rparr>"]
  show ?thesis by (simp add: main_fresh_def)
qed

subsection \<open>C8: construction with a geometry that is not a power of two\<close>

text \<open>
  Claim C8 says that construction fails with a configuration error unless block
  size and set count are powers of two. The constructor checks nothing
  (``Assume this divides evenly'', line 30): with block size 24 it returns a
  cache of 682 lines and set mask 681.
\<close>

theorem init_block_size_24:
  "CacheSim_init 24 1 16384 30 2 =
     Inr \<lparr> block_size = 24, associativity = 1, capacity = 16384, miss_penalty = 30,
           dirty_wb_penalty = 2, set_offset = 4, tag_offset = 9, set_mask = 681,
           tags = replicate 682 0, dirty = replicate 682 False,
           valid = replicate 682 False, priority = replicate 682 0,
           m_writes = 0, m_mem_accesses = 0, m_misses = 0, m_dirty_wb = 0,
           m_instructions = 0 \<rparr>"
  by code_simp

text \<open>
  Claim C8 as amended. Construction validates nothing and never reports a
  configuration error: it returns a cache for every configuration in which the
  32-bit product of block size and associativity is not zero, power of two or
  not, with the fields as given, the set mask \<open>capacity / (block_size *
  associativity) - 1\<close> and \<open>capacity / block_size\<close> lines. Only a zero divisor
  stops it (an unsigned division by zero).
\<close>

theorem init_no_validation:
  "(bs * a = 0 \<longrightarrow> CacheSim_init bs a c mp wbp = Inl DivisionByZero) \<and>
   (bs * a \<noteq> 0 \<longrightarrow>
      (\<exists>s. CacheSim_init bs a c mp wbp = Inr s \<and> block_size s = bs \<and> associativity s = a \<and>
           capacity s = c \<and> set_mask s = c div (bs * a) - 1 \<and>
           length (tags s) = unat (c div bs)))"
  by (auto simp: CacheSim_init_def Let_def)

theorem init_no_validation_witness:
  "CacheSim_init 0 4 16384 30 2 = Inl DivisionByZero \<and>
   (\<exists>s. CacheSim_init 48 3 16384 30 2 = Inr s \<and> block_size s = 48 \<and> associativity s = 3 \<and>
        capacity s = 16384 \<and> set_mask s = 112 \<and> length (tags s) = 341)"
  using init_no_validation [of 0 4 16384 30 2] init_no_validation [of 48 3 16384 30 2]
  by simp

subsection \<open>C9: the report of a run without accesses\<close>

text \<open>
  Claim C9 says that a report with no accesses (or no cycles) signals ``no data''
  instead of dividing. \<open>dump_stats\<close> has no such branch: for the cache of \<open>main\<close>
  and the empty trace both quotients are zero by zero, not-a-number.
\<close>

theorem dump_stats_empty_run:
  "CacheSim_init 16 1 16384 30 2 = Inr main_fresh \<and>
   run main_fresh [] = Inr main_fresh \<and>
   m_mem_accesses main_fresh = 0 \<and>
   dump_stats main_fresh = \<lparr> miss_rate = NaN, hits = 0, cycles = 0, ipc = NaN \<rparr>"
proof -
  have "dump_stats main_fresh = \<lparr> miss_rate = NaN, hits = 0, cycles = 0, ipc = NaN \<rparr>"
    by (simp add: dump_stats_def main_fresh_def Let_def double_div_def double_times_def)
  moreover have "m_mem_accesses main_fresh = 0" by (simp add: main_fresh_def)
  ultimately show ?thesis using init_main by simp
qed

text \<open>
  Claim C9 as amended. The report is computed in every case and signals
  nothing: with no accesses the miss rate is not-a-number when there are no
  misses either and an infinity otherwise; with no cycles the ipc is
  not-a-number when there are no instructions and an infinity otherwise; with
  all counters zero the report is not-a-number, 0 hits, 0 cycles,
  not-a-number.
\<close>

theorem dump_stats_zero_divisor:
  "(m_mem_accesses s = 0 \<longrightarrow>
      miss_rate (dump_stats s) =
        (if m_misses s = 0 then NaN else if 0 < sint (m_misses s) then PosInf else NegInf)) \<and>
   (cycles (dump_stats s) = 0 \<longrightarrow>
      ipc (dump_stats s) =
        (if m_instructions s = 0 then NaN
         else if 0 < sint (m_instructions s) then PosInf else NegInf)) \<and>
   (m_mem_accesses s = 0 \<and> m_misses s = 0 \<and> m_instructions s = 0 \<and> m_dirty_wb s = 0 \<longrightarrow>
      dump_stats s = \<lparr> miss_rate = NaN, hits = 0, cycles = 0, ipc = NaN \<rparr>)"
proof (intro conjI impI)
  assume "m_mem_accesses s = 0"
  then show "miss_rate (dump_stats s) =
        (if m_misses s = 0 then NaN else if 0 < sint (m_misses s) then PosInf else NegInf)"
    by (simp add: dump_stats_def Let_def double_div_def double_times_def signed_eq_0_iff)
next
  assume "cycles (dump_stats s) = 0"
  then have "sint (cycles (dump_stats s)) = 0" by simp
  moreover have "ipc (dump_stats s) =
      double_div (sint (m_instructions s)) (sint (cycles (dump_stats s)))"
    by (simp add: dump_stats_def Let_def)
  ultimately show "ipc (dump_stats s) =
        (if m_instructions s = 0 then NaN
         else if 0 < sint (m_instructions s) then PosInf else NegInf)"
    by (simp add: double_div_def signed_eq_0_iff)
next
  assume "m_mem_accesses s = 0 \<and> m_misses s = 0 \<and> m_instructions s = 0 \<and> m_dirty_wb s = 0"
  then show "dump_stats s = \<lparr> miss_rate = NaN, hits = 0, cycles = 0, ipc = NaN \<rparr>"
    by (simp add: dump_stats_def Let_def double_div_def double_times_def signed_eq_0_iff)
qed

theorem dump_stats_zero_divisor_witness:
  "m_mem_accesses two_way_fresh = 0 \<and> m_misses two_way_fresh = 0 \<and>
   m_instructions two_way_fresh = 0 \<and> m_dirty_wb two_way_fresh = 0 \<and>
   cycles (dump_stats two_way_fresh) = 0 \<and>
   miss_rate (dump_stats two_way_fresh) = NaN \<and> ipc (dump_stats two_way_fresh) = NaN"
proof -
  have "m_mem_accesses two_way_fresh = 0 \<and> m_misses two_way_fresh = 0 \<and>
    m_instructions two_way_fresh = 0 \<and> m_dirty_wb two_way_fresh = 0"
    by (simp add: two_way_fresh_def)
  with dump_stats_zero_divisor [of two_way_fresh] show ?thesis by simp
qed

subsection \<open>C10: what a probe leaves unchanged\<close>

text \<open>
  Claim C10. A probe that returns changes the four vectors only at the positions
  from \<open>base = set * associativity\<close> (the 32-bit unsigned product the source
  computes, \<open>set_base\<close>) up to but excluding \<open>base + associativity\<close>: the vectors
  keep their lengths, their first \<open>base\<close> elements and everything from position
  \<open>base + associativity\<close> on. Block size, associativity, capacity, both
  penalties, both offsets and the set mask are unchanged, and so are the
  counters. Where the product of set index and associativity fits 32 bits, as
  it does in every cache constructed with a geometry in range (lemma
  \<open>init_set_base\<close>), \<open>base\<close> is that product.
\<close>

theorem probe_frame:
  assumes "probe s type address = Inr (s', hit, dirty_wb)"
  shows "(block_size s' = block_size s \<and> associativity s' = associativity s \<and>
          capacity s' = capacity s \<and> miss_penalty s' = miss_penalty s \<and>
          dirty_wb_penalty s' = dirty_wb_penalty s \<and> set_offset s' = set_offset s \<and>
          tag_offset s' = tag_offset s \<and> set_mask s' = set_mask s) \<and>
         (m_writes s' = m_writes s \<and> m_mem_accesses s' = m_mem_accesses s \<and>
          m_misses s' = m_misses s \<and> m_dirty_wb s' = m_dirty_wb s \<and>
          m_instructions s' = m_instructions s) \<and>
         (length (tags s') = length (tags s) \<and> length (dirty s') = length (dirty s) \<and>
          length (valid s') = length (valid s) \<and> length (priority s') = length (priority s)) \<and>
         (take (set_base s address) (tags s') = take (set_base s address) (tags s) \<and>
          take (set_base s address) (dirty s') = take (set_base s address) (dirty s) \<and>
          take (set_base s address) (valid s') = take (set_base s address) (valid s) \<and>
          take (set_base s address) (priority s') = take (set_base s address) (priority s)) \<and>
         (drop (set_base s address + unat (associativity s)) (tags s') =
            drop (set_base s address + unat (associativity s)) (tags s) \<and>
          drop (set_base s address + unat (associativity s)) (dirty s') =
            drop (set_base s address + unat (associativity s)) (dirty s) \<and>
          drop (set_base s address + unat (associativity s)) (valid s') =
            drop (set_base s address + unat (associativity s)) (valid s) \<and>
          drop (set_base s address + unat (associativity s)) (priority s') =
            drop (set_base s address + unat (associativity s)) (priority s)) \<and>
         (unat (get_set s address) * unat (associativity s) < 2 ^ 32 \<longrightarrow>
            set_base s address = unat (get_set s address) * unat (associativity s))"
  using probe_frame_aux [OF assms] set_base_exact [of s address] by blast

text \<open>
  A write to address 0x30 in the fresh two-way cache: set 1, hence base 2; the
  line at position 3 is filled and the lines of set 0 stay as they were.
\<close>

theorem probe_frame_witness:
  "probe two_way_fresh True 0x30 =
     Inr (two_way_fresh\<lparr> tags := [0, 0, 0, 1], dirty := [False, False, False, True],
            valid := [False, False, False, True], priority := [0, 0, 1, 0] \<rparr>, False, False) \<and>
   set_base two_way_fresh 0x30 = 2 \<and>
   take 2 [0, 0, 0, 1 :: u64] = take (set_base two_way_fresh 0x30) (tags two_way_fresh) \<and>
   take 2 [0, 0, 1, 0 :: i32] = take (set_base two_way_fresh 0x30) (priority two_way_fresh)"
proof -
  have h: "probe two_way_fresh True 0x30 =
     Inr (two_way_fresh\<lparr> tags := [0, 0, 0, 1], dirty := [False, False, False, True],
            valid := [False, False, False, True], priority := [0, 0, 1, 0] \<rparr>, False, False)"
    by code_simp
  have b: "set_base two_way_fresh 0x30 = 2" by code_simp
  from probe_frame [OF h] h b show ?thesis by simp
qed

end
